theory Spec2Isabelle
  imports Main
begin

section \<open>JavaScript strings\<close>

text \<open>
  A JavaScript string is a sequence of UTF-16 code units.  A code unit is modelled as a
  natural number (below 65536 in every well-formed string); none of the functions below
  depends on that bound except \<open>fromCharCode\<close>, which reduces modulo \<open>2 ^ 16\<close>.
\<close>

type_synonym code_unit = nat
type_synonym jsstring = "code_unit list"

definition str :: "string \<Rightarrow> jsstring" where
  "str s = map of_char s"

definition NUL :: code_unit where "NUL = 0"
definition LF :: code_unit where "LF = 10"
definition DQUOTE :: code_unit where "DQUOTE = 34"
definition BULLET :: code_unit where "BULLET = 8226"

text \<open>
  The code points matched by \<open>\s\<close> and removed by \<open>String.prototype.trim\<close>:
  WhiteSpace (TAB, VT, FF, SP, NBSP, ZWNBSP and the Unicode category Zs) and
  LineTerminator (LF, CR, LS, PS).
\<close>

definition is_space :: "code_unit \<Rightarrow> bool" where
  "is_space c \<longleftrightarrow>
     c = 9 \<or> c = 10 \<or> c = 11 \<or> c = 12 \<or> c = 13 \<or> c = 32 \<or> c = 160 \<or> c = 5760 \<or>
     (8192 \<le> c \<and> c \<le> 8202) \<or> c = 8232 \<or> c = 8233 \<or> c = 8239 \<or> c = 8287 \<or>
     c = 12288 \<or> c = 65279"

definition trim :: "jsstring \<Rightarrow> jsstring" where
  "trim s = rev (dropWhile is_space (rev (dropWhile is_space s)))"

section \<open>Regular expressions\<close>

text \<open>
  The fragment of ECMAScript regular expressions used by the converter: character
  atoms, concatenation, alternation, greedy and lazy repetition of a single character
  class, and capture groups.  \<open>match r s\<close> lists every way \<open>r\<close> can match a prefix of
  \<open>s\<close>, as the pair of the captures made and the unread rest, in the order in which the
  backtracking matcher tries them; the match the engine reports is the first of the list.
\<close>

datatype regex =
    Eps
  | Atom "code_unit \<Rightarrow> bool"
  | Seq regex regex
  | Alt regex regex
  | Star "code_unit \<Rightarrow> bool"
  | LazyStar "code_unit \<Rightarrow> bool"
  | Grp nat regex

type_synonym captures = "(nat \<times> jsstring) list"

fun star_greedy :: "(code_unit \<Rightarrow> bool) \<Rightarrow> jsstring \<Rightarrow> jsstring list" where
  "star_greedy C [] = [[]]"
| "star_greedy C (c # cs) = (if C c then star_greedy C cs else []) @ [c # cs]"

fun star_lazy :: "(code_unit \<Rightarrow> bool) \<Rightarrow> jsstring \<Rightarrow> jsstring list" where
  "star_lazy C [] = [[]]"
| "star_lazy C (c # cs) = (c # cs) # (if C c then star_lazy C cs else [])"

fun match :: "regex \<Rightarrow> jsstring \<Rightarrow> (captures \<times> jsstring) list" where
  "match Eps s = [([], s)]"
| "match (Atom C) s = (case s of [] \<Rightarrow> [] | c # cs \<Rightarrow> if C c then [([], cs)] else [])"
| "match (Seq a b) s =
     concat (map (\<lambda>(c1, r1). map (\<lambda>(c2, r2). (c1 @ c2, r2)) (match b r1)) (match a s))"
| "match (Alt a b) s = match a s @ match b s"
| "match (Star C) s = map (Pair []) (star_greedy C s)"
| "match (LazyStar C) s = map (Pair []) (star_lazy C s)"
| "match (Grp n a) s =
     map (\<lambda>(c, r). ((n, take (length s - length r) s) # c, r)) (match a s)"

text \<open>
  Canonicalize of the \<open>i\<close> flag (without \<open>u\<close>) upper-cases a code unit, and never maps a
  code unit from 128 on to one below 128; so against the ASCII characters of the patterns
  below, upper-casing \<open>a\<close>..\<open>z\<close> and leaving everything else alone decides the same
  comparisons.
\<close>

definition canonicalize :: "code_unit \<Rightarrow> code_unit" where
  "canonicalize c = (if 97 \<le> c \<and> c \<le> 122 then c - 32 else c)"

definition sym :: "code_unit \<Rightarrow> regex" where
  "sym a = Atom (\<lambda>c. c = a)"

definition sym_i :: "code_unit \<Rightarrow> regex" where
  "sym_i a = Atom (\<lambda>c. canonicalize c = canonicalize a)"

fun cat :: "regex list \<Rightarrow> regex" where
  "cat [] = Eps"
| "cat [r] = r"
| "cat (r # rs) = Seq r (cat rs)"

definition lit :: "string \<Rightarrow> regex" where
  "lit s = cat (map sym (str s))"

definition lit_i :: "string \<Rightarrow> regex" where
  "lit_i s = cat (map sym_i (str s))"

definition opt :: "regex \<Rightarrow> regex" where
  "opt r = Alt r Eps"

definition rep1 :: "(code_unit \<Rightarrow> bool) \<Rightarrow> regex" where
  "rep1 C = Seq (Atom C) (Star C)"

definition any_unit :: "code_unit \<Rightarrow> bool" where
  "any_unit c = True"

definition not_gt :: "code_unit \<Rightarrow> bool" where
  "not_gt c \<longleftrightarrow> c \<noteq> 62"

definition not_dquote :: "code_unit \<Rightarrow> bool" where
  "not_dquote c \<longleftrightarrow> c \<noteq> DQUOTE"

definition is_digit :: "code_unit \<Rightarrow> bool" where
  "is_digit c \<longleftrightarrow> 48 \<le> c \<and> c \<le> 57"

definition is_hex_digit :: "code_unit \<Rightarrow> bool" where
  "is_hex_digit c \<longleftrightarrow> (48 \<le> c \<and> c \<le> 57) \<or> (97 \<le> c \<and> c \<le> 102) \<or> (65 \<le> c \<and> c \<le> 70)"

section \<open>String.prototype.replace with a global pattern\<close>

text \<open>
  With the \<open>g\<close> flag the pattern is tried at every index from left to right; after a match
  the search resumes where the match ended, and after an empty match one code unit
  further on.  \<open>scan\<close> returns the input cut into the code units copied through and the
  matches found.
\<close>

datatype segment = Text code_unit | Hit captures

function scan :: "regex \<Rightarrow> jsstring \<Rightarrow> segment list" where
  "scan re [] = (case match re [] of [] \<Rightarrow> [] | (caps, r) # _ \<Rightarrow> [Hit caps])"
| "scan re (c # cs) =
     (case match re (c # cs) of
        [] \<Rightarrow> Text c # scan re cs
      | (caps, r) # _ \<Rightarrow>
          if length r < length (c # cs) then Hit caps # scan re r
          else Hit caps # Text c # scan re cs)"
  by pat_completeness auto
termination
  by (relation "measure (\<lambda>(re, s). length s)") auto


text \<open>
  The replacement is either a template, in which \<open>$n\<close> stands for capture \<open>n\<close> (the
  empty string when the group did not take part), or a callback on the captures.  A
  callback that calls a method on a capture throws a TypeError when that capture is
  undefined.  A string holds at most \<open>max_string_length\<close> code units (\<open>2 ^ 29 - 24\<close> in
  the engine of the Node 18 image the repository is built for), and \<open>replace\<close> throws a
  RangeError (invalid string length) instead of returning a longer one.
\<close>

datatype js_error = TypeError | RangeError

definition max_string_length :: nat where
  "max_string_length = 536870888"

text \<open>
  \<open>new_string subject text\<close>: the result \<open>text\<close> of a method called on \<open>subject\<close>.  The
  subject is a string, so a result that is not longer than the subject is one too; a
  longer result is refused when it exceeds the maximum.
\<close>

definition new_string :: "jsstring \<Rightarrow> jsstring \<Rightarrow> js_error + jsstring" where
  "new_string subject text =
     (if length text \<le> max_string_length \<or> length text \<le> length subject then Inr text
      else Inl RangeError)"

definition and_then :: "js_error + 'a \<Rightarrow> ('a \<Rightarrow> js_error + 'b) \<Rightarrow> js_error + 'b" where
  "and_then r f = (case r of Inl e \<Rightarrow> Inl e | Inr v \<Rightarrow> f v)"

datatype template_part = Lit jsstring | Ref nat

definition capture :: "captures \<Rightarrow> nat \<Rightarrow> jsstring option" where
  "capture caps n = map_of caps n"

fun expand :: "template_part list \<Rightarrow> captures \<Rightarrow> jsstring" where
  "expand [] caps = []"
| "expand (Lit t # ps) caps = t @ expand ps caps"
| "expand (Ref n # ps) caps =
     (case capture caps n of None \<Rightarrow> [] | Some v \<Rightarrow> v) @ expand ps caps"

fun substitute :: "(captures \<Rightarrow> jsstring) \<Rightarrow> segment list \<Rightarrow> jsstring" where
  "substitute f [] = []"
| "substitute f (Text c # gs) = c # substitute f gs"
| "substitute f (Hit caps # gs) = f caps @ substitute f gs"

fun substitute_fn ::
  "(captures \<Rightarrow> js_error + jsstring) \<Rightarrow> segment list \<Rightarrow> js_error + jsstring" where
  "substitute_fn f [] = Inr []"
| "substitute_fn f (Text c # gs) =
     (case substitute_fn f gs of Inl e \<Rightarrow> Inl e | Inr t \<Rightarrow> Inr (c # t))"
| "substitute_fn f (Hit caps # gs) =
     (case f caps of
        Inl e \<Rightarrow> Inl e
      | Inr v \<Rightarrow> (case substitute_fn f gs of Inl e \<Rightarrow> Inl e | Inr t \<Rightarrow> Inr (v @ t)))"

text \<open>
  \<open>replaced re tpl s\<close> and \<open>replaced_fn re f s\<close> are the texts that
  \<open>s.replace(re, tpl)\<close> and \<open>s.replace(re, f)\<close> put together; \<open>replace_str\<close> and
  \<open>replace_fn\<close> are the calls, which return that text as a new string or throw.
\<close>

definition replaced :: "regex \<Rightarrow> template_part list \<Rightarrow> jsstring \<Rightarrow> jsstring" where
  "replaced re tpl s = substitute (expand tpl) (scan re s)"

definition replaced_fn ::
  "regex \<Rightarrow> (captures \<Rightarrow> js_error + jsstring) \<Rightarrow> jsstring \<Rightarrow> js_error + jsstring" where
  "replaced_fn re f s = substitute_fn f (scan re s)"

definition replace_str ::
  "regex \<Rightarrow> template_part list \<Rightarrow> jsstring \<Rightarrow> js_error + jsstring" where
  "replace_str re tpl s = new_string s (replaced re tpl s)"

definition replace_fn ::
  "regex \<Rightarrow> (captures \<Rightarrow> js_error + jsstring) \<Rightarrow> jsstring \<Rightarrow> js_error + jsstring" where
  "replace_fn re f s = and_then (replaced_fn re f s) (new_string s)"

text \<open>
  In the entity decoder every replacement is shorter than the text it replaces (lemma
  \<open>decode_not_longer\<close> below), so that no step of it can exceed the maximum; its
  \<open>replace\<close>, \<open>split\<close> and \<open>join\<close> are modelled without the error.
\<close>

definition replace_cb :: "regex \<Rightarrow> (captures \<Rightarrow> jsstring) \<Rightarrow> jsstring \<Rightarrow> jsstring" where
  "replace_cb re f s = substitute f (scan re s)"

section \<open>String.prototype.split and Array.prototype.join\<close>

fun starts_with :: "jsstring \<Rightarrow> jsstring \<Rightarrow> bool" where
  "starts_with [] s = True"
| "starts_with (p # ps) [] = False"
| "starts_with (p # ps) (c # cs) = (p = c \<and> starts_with ps cs)"

text \<open>
  \<open>split_from sep acc s\<close>: the pieces of \<open>s\<close> between the occurrences of \<open>sep\<close> found from
  left to right, \<open>acc\<close> being the piece under construction.
\<close>

function split_from :: "jsstring \<Rightarrow> jsstring \<Rightarrow> jsstring \<Rightarrow> jsstring list" where
  "split_from sep acc [] = [acc]"
| "split_from sep acc (c # cs) =
     (if sep \<noteq> [] \<and> starts_with sep (c # cs)
      then acc # split_from sep [] (drop (length sep) (c # cs))
      else split_from sep (acc @ [c]) cs)"
  by pat_completeness auto
termination
  by (relation "measure (\<lambda>(sep, acc, s). length s)") (auto simp: neq_Nil_conv)

definition split_js :: "jsstring \<Rightarrow> jsstring \<Rightarrow> jsstring list" where
  "split_js sep s = split_from sep [] s"

fun join_js :: "jsstring \<Rightarrow> jsstring list \<Rightarrow> jsstring" where
  "join_js sep [] = []"
| "join_js sep [p] = p"
| "join_js sep (p # ps) = p @ sep @ join_js sep ps"

section \<open>parseInt and String.fromCharCode\<close>

text \<open>
  Numbers are IEEE doubles.  The only numbers the converter makes are parsed from digit
  strings, so they are NaN, non-negative integers or \<open>+\<infinity>\<close>; \<open>to_number n\<close> is the double
  nearest to the integer \<open>n\<close> (ties to even), which is \<open>n\<close> itself below \<open>2 ^ 53\<close>.
\<close>

datatype number = NaN | Infinity | Finite nat

function bit_length :: "nat \<Rightarrow> nat" where
  "bit_length n = (if n = 0 then 0 else Suc (bit_length (n div 2)))"
  by pat_completeness auto
termination
  by (relation "measure id") auto

declare bit_length.simps [simp del]

definition to_number :: "nat \<Rightarrow> number" where
  "to_number n =
     (if n < 2 ^ 53 then Finite n
      else
        let e = bit_length n - 53;
            q = n div 2 ^ e;
            r = n mod 2 ^ e;
            h = 2 ^ (e - 1);
            q' = (if h < r \<or> (r = h \<and> odd q) then q + 1 else q)
        in if 2 ^ 1024 \<le> q' * 2 ^ e then Infinity else Finite (q' * 2 ^ e))"

definition digit_value :: "code_unit \<Rightarrow> nat" where
  "digit_value c =
     (if 48 \<le> c \<and> c \<le> 57 then c - 48
      else if 97 \<le> c \<and> c \<le> 122 then c - 87
      else if 65 \<le> c \<and> c \<le> 90 then c - 55
      else 36)"

text \<open>
  \<open>parseInt\<close> on an argument without leading white space, sign or \<open>0x\<close> prefix (the
  patterns that call it capture digits only): the longest prefix of digits of the radix
  is read; when it is empty the result is NaN.
\<close>

definition digits_value :: "nat \<Rightarrow> jsstring \<Rightarrow> nat" where
  "digits_value radix z = foldl (\<lambda>n c. n * radix + digit_value c) 0 z"

definition parseInt :: "jsstring \<Rightarrow> nat \<Rightarrow> number" where
  "parseInt s radix =
     (let z = takeWhile (\<lambda>c. digit_value c < radix) s
      in if z = [] then NaN else to_number (digits_value radix z))"

text \<open>\<open>String.fromCharCode\<close> applies ToUint16: NaN and the infinities give 0.\<close>

definition fromCharCode :: "number \<Rightarrow> jsstring" where
  "fromCharCode x = (case x of NaN \<Rightarrow> [0] | Infinity \<Rightarrow> [0] | Finite n \<Rightarrow> [n mod 65536])"

section \<open>The entity decoder\<close>

definition entities :: "(jsstring \<times> jsstring) list" where
  "entities =
     [(str ''&amp;'', str ''&''),
      (str ''&lt;'', str ''<''),
      (str ''&gt;'', str ''>''),
      (str ''&nbsp;'', str '' ''),
      (str ''&quot;'', [DQUOTE]),
      (str ''&#39;'', [39]),
      (str ''&apos;'', [39]),
      (str ''&ndash;'', [8211]),
      (str ''&mdash;'', [8212]),
      (str ''&hellip;'', [8230]),
      (str ''&laquo;'', [171]),
      (str ''&raquo;'', [187]),
      (str ''&bull;'', [BULLET]),
      (str ''&copy;'', [169]),
      (str ''&reg;'', [174]),
      (str ''&trade;'', [8482])]"

definition re_decimal :: regex where
  "re_decimal = cat [lit ''&#'', Grp 1 (rep1 is_digit), lit '';'']"

definition re_hex :: regex where
  "re_hex = cat [lit ''&#x'', Grp 1 (rep1 is_hex_digit), lit '';'']"

text \<open>The argument a callback passes to \<open>parseInt\<close>; \<open>undefined\<close> is converted to a string.\<close>

definition param :: "captures \<Rightarrow> nat \<Rightarrow> jsstring" where
  "param caps n = (case capture caps n of None \<Rightarrow> str ''undefined'' | Some v \<Rightarrow> v)"

definition decodeHtmlEntities :: "jsstring \<Rightarrow> jsstring" where
  "decodeHtmlEntities text =
     (let result = text;
          result = foldl (\<lambda>result (entity, replacement). join_js replacement (split_js entity result))
                     result entities;
          result = replace_cb re_decimal (\<lambda>caps. fromCharCode (parseInt (param caps 1) 10)) result;
          result = replace_cb re_hex (\<lambda>caps. fromCharCode (parseInt (param caps 1) 16)) result
      in result)"

section \<open>The converter\<close>

definition tag_rest :: regex where
  "tag_rest = opt (Seq (Atom is_space) (Star not_gt))"

definition re_br :: regex where
  "re_br = cat [lit_i ''<br'', Star is_space, opt (lit_i ''/''), lit_i ''>'']"

definition re_p_between :: regex where
  "re_p_between = cat [lit_i ''</p>'', Star is_space, lit_i ''<p'', Star not_gt, lit_i ''>'']"

definition re_p_open :: regex where
  "re_p_open = cat [lit_i ''<p'', Star not_gt, lit_i ''>'']"

definition re_p_close :: regex where
  "re_p_close = lit_i ''</p>''"

definition re_a :: regex where
  "re_a = cat [lit_i ''<a'', rep1 is_space, Star not_gt, lit_i ''href='', sym_i DQUOTE,
               Grp 1 (Star not_dquote), sym_i DQUOTE, Star not_gt, lit_i ''>'',
               Grp 2 (LazyStar any_unit), lit_i ''</a>'']"

definition re_bold :: regex where
  "re_bold = cat [lit_i ''<'', opt (lit_i ''/''), Alt (lit_i ''b'') (lit_i ''strong''),
                  tag_rest, lit_i ''>'']"

definition re_italic :: regex where
  "re_italic = cat [lit_i ''<'', opt (lit_i ''/''), Alt (lit_i ''i'') (lit_i ''em''),
                    tag_rest, lit_i ''>'']"

definition re_strike :: regex where
  "re_strike = cat [lit_i ''<'', opt (lit_i ''/''),
                    Alt (lit_i ''s'') (Alt (lit_i ''strike'') (lit_i ''del'')),
                    tag_rest, lit_i ''>'']"

definition re_li :: regex where
  "re_li = cat [lit_i ''<li'', Star not_gt, lit_i ''>'', Grp 1 (LazyStar any_unit),
                lit_i ''</li>'']"

definition re_list :: regex where
  "re_list = cat [lit_i ''<'', opt (lit_i ''/''), Alt (lit_i ''ul'') (lit_i ''ol''),
                  tag_rest, lit_i ''>'']"

definition is_1_to_6 :: "code_unit \<Rightarrow> bool" where
  "is_1_to_6 c \<longleftrightarrow> 49 \<le> c \<and> c \<le> 54"

definition re_heading :: regex where
  "re_heading = cat [lit_i ''<h'', Atom is_1_to_6, Star not_gt, lit_i ''>'',
                     Grp 1 (LazyStar any_unit), lit_i ''</h'', Atom is_1_to_6, lit_i ''>'']"

definition re_tag :: regex where
  "re_tag = cat [lit ''<'', rep1 not_gt, lit ''>'']"

definition re_link_start :: regex where
  "re_link_start = cat [sym NUL, lit ''LINK_START'']"

definition re_link_end :: regex where
  "re_link_end = cat [sym NUL, lit ''LINK_END'']"

definition re_newlines :: regex where
  "re_newlines = cat [sym LF, sym LF, sym LF, Star (\<lambda>c. c = LF)]"

definition link_template :: "template_part list" where
  "link_template =
     [Lit (NUL # str ''LINK_START''), Ref 1, Lit (str ''|''), Ref 2, Lit (NUL # str ''LINK_END'')]"

definition li_callback :: "captures \<Rightarrow> js_error + jsstring" where
  "li_callback caps =
     (case capture caps 1 of
        None \<Rightarrow> Inl TypeError
      | Some content \<Rightarrow> Inr ([LF, BULLET, 32] @ trim content))"

definition heading_callback :: "captures \<Rightarrow> js_error + jsstring" where
  "heading_callback caps =
     (case capture caps 1 of
        None \<Rightarrow> Inl TypeError
      | Some content \<Rightarrow> Inr ([LF] @ str ''*'' @ trim content @ str ''*'' @ [LF]))"

definition htmlToMrkdwn :: "jsstring \<Rightarrow> js_error + jsstring" where
  "htmlToMrkdwn html =
     (if html = [] then Inr html
      else
        and_then (replace_str re_br [Lit [LF]] html) (\<lambda>text.
        and_then (replace_str re_p_between [Lit [LF, LF]] text) (\<lambda>text.
        and_then (replace_str re_p_open [Lit []] text) (\<lambda>text.
        and_then (replace_str re_p_close [Lit [LF, LF]] text) (\<lambda>text.
        and_then (replace_str re_a link_template text) (\<lambda>text.
        and_then (replace_str re_bold [Lit (str ''*'')] text) (\<lambda>text.
        and_then (replace_str re_italic [Lit (str ''_'')] text) (\<lambda>text.
        and_then (replace_str re_strike [Lit (str ''~'')] text) (\<lambda>text.
        and_then (replace_fn re_li li_callback text) (\<lambda>text.
        and_then (replace_str re_list [Lit [LF]] text) (\<lambda>text.
        and_then (replace_fn re_heading heading_callback text) (\<lambda>text.
        and_then (replace_str re_tag [Lit []] text) (\<lambda>text.
        and_then (replace_str re_link_start [Lit (str ''<'')] text) (\<lambda>text.
        and_then (replace_str re_link_end [Lit (str ''>'')] text) (\<lambda>text.
        and_then (replace_str re_newlines [Lit [LF, LF]] (decodeHtmlEntities text)) (\<lambda>text.
        Inr (trim text)))))))))))))))))"

section \<open>The text of each stage\<close>

text \<open>
  The texts that the steps of the converter put together, apart from the question
  whether each is returned as a string: the paragraph steps, all steps before the list
  items, the steps after the headings, and the whole.  The lemmas of section
  \<open>The converter and its texts\<close> show that the converter returns \<open>converted\<close> unless
  the anchor step is refused.
\<close>

definition stage_paragraphs :: "jsstring \<Rightarrow> jsstring" where
  "stage_paragraphs html =
     (let text = html;
          text = replaced re_br [Lit [LF]] text;
          text = replaced re_p_between [Lit [LF, LF]] text;
          text = replaced re_p_open [Lit []] text;
          text = replaced re_p_close [Lit [LF, LF]] text
      in text)"

definition stage_anchor :: "jsstring \<Rightarrow> jsstring" where
  "stage_anchor html = replaced re_a link_template (stage_paragraphs html)"

definition stage_inline :: "jsstring \<Rightarrow> jsstring" where
  "stage_inline html =
     (let text = html;
          text = replaced re_br [Lit [LF]] text;
          text = replaced re_p_between [Lit [LF, LF]] text;
          text = replaced re_p_open [Lit []] text;
          text = replaced re_p_close [Lit [LF, LF]] text;
          text = replaced re_a link_template text;
          text = replaced re_bold [Lit (str ''*'')] text;
          text = replaced re_italic [Lit (str ''_'')] text;
          text = replaced re_strike [Lit (str ''~'')] text
      in text)"

definition stage_finish :: "jsstring \<Rightarrow> jsstring" where
  "stage_finish text0 =
     (let text = text0;
          text = replaced re_tag [Lit []] text;
          text = replaced re_link_start [Lit (str ''<'')] text;
          text = replaced re_link_end [Lit (str ''>'')] text;
          text = decodeHtmlEntities text;
          text = replaced re_newlines [Lit [LF, LF]] text;
          text = trim text
      in text)"

definition converted :: "jsstring \<Rightarrow> js_error + jsstring" where
  "converted html =
     (if html = [] then Inr html
      else
        case replaced_fn re_li li_callback (stage_inline html) of
          Inl e \<Rightarrow> Inl e
        | Inr text \<Rightarrow>
            (case replaced_fn re_heading heading_callback (replaced re_list [Lit [LF]] text) of
               Inl e \<Rightarrow> Inl e
             | Inr text \<Rightarrow> Inr (stage_finish text)))"

text \<open>\<open>anchor_fits html\<close>: the anchor step on \<open>html\<close> is not refused.\<close>

definition anchor_fits :: "jsstring \<Rightarrow> bool" where
  "anchor_fits html \<longleftrightarrow>
     length (stage_anchor html) \<le> max_string_length
     \<or> length (stage_anchor html) \<le> length (stage_paragraphs html)"

section \<open>Predicates on strings\<close>

text \<open>\<open>contains p s\<close>: the string \<open>p\<close> occurs in \<open>s\<close>.\<close>

fun contains :: "jsstring \<Rightarrow> jsstring \<Rightarrow> bool" where
  "contains p [] = starts_with p []"
| "contains p (c # cs) = (starts_with p (c # cs) \<or> contains p cs)"

text \<open>\<open>starts_with_i p s\<close>: \<open>s\<close> starts with \<open>p\<close>, letter case apart.\<close>

definition starts_with_i :: "jsstring \<Rightarrow> jsstring \<Rightarrow> bool" where
  "starts_with_i p s = starts_with (map canonicalize p) (map canonicalize s)"

text \<open>\<open>contains_i p s\<close>: \<open>p\<close> occurs in \<open>s\<close>, letter case apart.\<close>

definition contains_i :: "jsstring \<Rightarrow> jsstring \<Rightarrow> bool" where
  "contains_i p s = contains (map canonicalize p) (map canonicalize s)"

text \<open>\<open>nl3free s\<close>: no three consecutive line feeds occur in \<open>s\<close>.\<close>

definition nl3free :: "jsstring \<Rightarrow> bool" where
  "nl3free s = (\<not> contains [LF, LF, LF] s)"

text \<open>\<open>trimmed s\<close>: \<open>s\<close> neither starts nor ends with white space.\<close>

definition trimmed :: "jsstring \<Rightarrow> bool" where
  "trimmed s = (case s of [] \<Rightarrow> True | c # cs \<Rightarrow> \<not> is_space c \<and> \<not> is_space (last (c # cs)))"

text \<open>The last two steps of the converter, as functions of their own.\<close>

definition collapse_newlines :: "jsstring \<Rightarrow> jsstring" where
  "collapse_newlines text = replaced re_newlines [Lit [LF, LF]] text"

definition tidy :: "jsstring \<Rightarrow> jsstring" where
  "tidy text = trim (collapse_newlines text)"

text \<open>
  \<open>plain s\<close>: \<open>s\<close> has no \<open><\<close> (60), no \<open>&\<close> (38) and neither of the two
  placeholders that stand for the angle brackets of a link.
\<close>

definition plain :: "jsstring \<Rightarrow> bool" where
  "plain s \<longleftrightarrow>
     60 \<notin> set s \<and> 38 \<notin> set s \<and>
     \<not> contains (NUL # str ''LINK_START'') s \<and> \<not> contains (NUL # str ''LINK_END'') s"

text \<open>\<open>simple s\<close>: \<open>s\<close> has no \<open><\<close> (60), no \<open>&\<close> (38) and no U+0000.\<close>

definition simple :: "jsstring \<Rightarrow> bool" where
  "simple s \<longleftrightarrow> 60 \<notin> set s \<and> 38 \<notin> set s \<and> NUL \<notin> set s"

text \<open>
  \<open>grp_star n C k acc s\<close> and \<open>grp_lazy n C k acc s\<close>: the matches of group \<open>n\<close>
  around a greedy (lazy) repetition of the class \<open>C\<close>, followed by \<open>k\<close>, when the group has
  already read \<open>acc\<close> and \<open>s\<close> is left.
\<close>

definition grp_star ::
  "nat \<Rightarrow> (code_unit \<Rightarrow> bool) \<Rightarrow> regex \<Rightarrow> jsstring \<Rightarrow> jsstring \<Rightarrow> (captures \<times> jsstring) list" where
  "grp_star n C k acc s =
     concat (map (\<lambda>r. map (\<lambda>(c2, r2). ((n, acc @ take (length s - length r) s) # c2, r2))
                        (match k r))
               (star_greedy C s))"

definition grp_lazy ::
  "nat \<Rightarrow> (code_unit \<Rightarrow> bool) \<Rightarrow> regex \<Rightarrow> jsstring \<Rightarrow> jsstring \<Rightarrow> (captures \<times> jsstring) list" where
  "grp_lazy n C k acc s =
     concat (map (\<lambda>r. map (\<lambda>(c2, r2). ((n, acc @ take (length s - length r) s) # c2, r2))
                        (match k r))
               (star_lazy C s))"

text \<open>\<open>binds re n\<close>: group \<open>n\<close> takes part in every match of \<open>re\<close>.\<close>

fun binds :: "regex \<Rightarrow> nat \<Rightarrow> bool" where
  "binds Eps n = False"
| "binds (Atom C) n = False"
| "binds (Seq a b) n = (binds a n \<or> binds b n)"
| "binds (Alt a b) n = (binds a n \<and> binds b n)"
| "binds (Star C) n = False"
| "binds (LazyStar C) n = False"
| "binds (Grp m a) n = (m = n \<or> binds a n)"

text \<open>\<open>needs c0 re\<close>: every match of \<open>re\<close> starts with the code unit \<open>c0\<close>.\<close>

definition needs :: "code_unit \<Rightarrow> regex \<Rightarrow> bool" where
  "needs c0 re \<longleftrightarrow> match re [] = [] \<and> (\<forall>c cs. c \<noteq> c0 \<longrightarrow> match re (c # cs) = [])"

text \<open>
  \<open>fixed re\<close>: the least number of code units that a match of \<open>re\<close> reads outside its
  groups.  \<open>group_free re\<close>: \<open>re\<close> has no group; \<open>flat re\<close>: no group of \<open>re\<close> lies in
  another.  \<open>captured caps\<close>: the number of code units in the captures.
\<close>

fun fixed :: "regex \<Rightarrow> nat" where
  "fixed Eps = 0"
| "fixed (Atom C) = 1"
| "fixed (Seq a b) = fixed a + fixed b"
| "fixed (Alt a b) = min (fixed a) (fixed b)"
| "fixed (Star C) = 0"
| "fixed (LazyStar C) = 0"
| "fixed (Grp n a) = 0"

fun group_free :: "regex \<Rightarrow> bool" where
  "group_free (Seq a b) = (group_free a \<and> group_free b)"
| "group_free (Alt a b) = (group_free a \<and> group_free b)"
| "group_free (Grp n a) = False"
| "group_free re = True"

fun flat :: "regex \<Rightarrow> bool" where
  "flat (Seq a b) = (flat a \<and> flat b)"
| "flat (Alt a b) = (flat a \<and> flat b)"
| "flat (Grp n a) = group_free a"
| "flat re = True"

definition captured :: "captures \<Rightarrow> nat" where
  "captured caps = sum_list (map (\<lambda>(n, v). length v) caps)"

text \<open>
  \<open>restore s\<close>: \<open>s\<close> with every placeholder replaced by the angle bracket it stands
  for, in one pass from left to right.
\<close>

fun restore :: "jsstring \<Rightarrow> jsstring" where
  "restore [] = []"
| "restore (c # cs) =
     (if starts_with (NUL # str ''LINK_START'') (c # cs)
      then 60 # restore (drop 10 cs)
      else if starts_with (NUL # str ''LINK_END'') (c # cs)
      then 62 # restore (drop 8 cs)
      else c # restore cs)"

text \<open>\<open>misses re a rest\<close>: in \<open>a @ rest\<close>, the pattern matches at no position of \<open>a\<close>.\<close>

fun misses :: "regex \<Rightarrow> jsstring \<Rightarrow> jsstring \<Rightarrow> bool" where
  "misses re [] rest = True"
| "misses re (c # cs) rest = (match re (c # cs @ rest) = [] \<and> misses re cs rest)"

section \<open>Evaluation\<close>

text \<open>The definitions to unfold when the converter is run on a concrete string.\<close>

lemmas char_defs = str_def NUL_def LF_def DQUOTE_def BULLET_def

lemmas class_defs =
  is_space_def any_unit_def not_gt_def not_dquote_def is_digit_def is_hex_digit_def
  is_1_to_6_def canonicalize_def

lemmas regex_defs =
  sym_def sym_i_def lit_def lit_i_def opt_def rep1_def tag_rest_def
  re_br_def re_p_between_def re_p_open_def re_p_close_def re_a_def re_bold_def
  re_italic_def re_strike_def re_li_def re_list_def re_heading_def re_tag_def
  re_link_start_def re_link_end_def re_newlines_def re_decimal_def re_hex_def

lemmas run_defs =
  htmlToMrkdwn_def replace_str_def replace_fn_def new_string_def and_then_def
  max_string_length_def converted_def stage_paragraphs_def stage_anchor_def
  stage_inline_def stage_finish_def decodeHtmlEntities_def
  replaced_def replace_cb_def replaced_fn_def link_template_def li_callback_def
  heading_callback_def capture_def param_def entities_def split_js_def trim_def
  parseInt_def digits_value_def fromCharCode_def to_number_def digit_value_def Let_def

lemmas eval_defs = char_defs class_defs regex_defs run_defs match.simps(3)

section \<open>Matching step by step\<close>

lemma map_caps_id [simp]: "map (\<lambda>(c2, r2). ([] @ c2, r2)) ms = ms"
  by (induction ms) auto

lemma seq_assoc_inner:
  "concat (map (\<lambda>(c12, r). map (\<lambda>(c3, r3). (c12 @ c3, r3)) (match c r))
             (map (\<lambda>(c2, r2). (c1 @ c2, r2)) ms)) =
   map (\<lambda>(c23, r). (c1 @ c23, r))
     (concat (map (\<lambda>(c2, r). map (\<lambda>(c3, r3). (c2 @ c3, r3)) (match c r)) ms))"
  by (induction ms) (auto simp: case_prod_beta)

lemma seq_assoc_outer:
  "concat (map (\<lambda>(c12, r). map (\<lambda>(c3, r3). (c12 @ c3, r3)) (match c r))
             (concat (map (\<lambda>(c1, r1). map (\<lambda>(c2, r2). (c1 @ c2, r2)) (match b r1)) ms))) =
   concat (map (\<lambda>(c1, r1). map (\<lambda>(c23, r). (c1 @ c23, r))
     (concat (map (\<lambda>(c2, r). map (\<lambda>(c3, r3). (c2 @ c3, r3)) (match c r)) (match b r1)))) ms)"
proof (induction ms)
  case Nil
  show ?case by simp
next
  case (Cons m ms)
  obtain c1 r1 where m: "m = (c1, r1)" by (cases m)
  show ?case using Cons seq_assoc_inner [of c c1 "match b r1"] by (simp add: m)
qed

lemma match_seq_assoc: "match (Seq (Seq a b) c) s = match (Seq a (Seq b c)) s"
  using seq_assoc_outer [of c b "match a s"] by simp

lemma match_seq_alt: "match (Seq (Alt a b) c) s = match (Seq a c) s @ match (Seq b c) s"
  by simp

lemma match_seq_eps: "match (Seq Eps c) s = match c s"
  by simp

lemma match_seq_atom_cons:
  "match (Seq (Atom C) r) (x # xs) = (if C x then match r xs else [])"
  by simp

lemma match_seq_atom_nil: "match (Seq (Atom C) r) [] = []"
  by simp

lemma match_seq_star_cons:
  "match (Seq (Star C) r) (x # xs) =
     (if C x then match (Seq (Star C) r) xs else []) @ match r (x # xs)"
  by simp

lemma match_seq_star_nil: "match (Seq (Star C) r) [] = match r []"
  by simp

lemma match_seq_lazy_cons:
  "match (Seq (LazyStar C) r) (x # xs) =
     match r (x # xs) @ (if C x then match (Seq (LazyStar C) r) xs else [])"
  by simp

lemma match_seq_lazy_nil: "match (Seq (LazyStar C) r) [] = match r []"
  by simp


lemmas match_exec =
  match_seq_assoc match_seq_alt match_seq_eps match_seq_atom_cons match_seq_atom_nil
  match_seq_star_cons match_seq_star_nil match_seq_lazy_cons match_seq_lazy_nil

declare match.simps(3) [simp del]

lemma canonicalize_lt [simp]: "canonicalize c = canonicalize 60 \<longleftrightarrow> c = 60"
  by (auto simp: canonicalize_def)

lemma needsI:
  "match re [] = [] \<Longrightarrow> (\<And>c cs. c \<noteq> c0 \<Longrightarrow> match re (c # cs) = []) \<Longrightarrow> needs c0 re"
  by (simp add: needs_def)

lemma needs_inline:
  "needs 60 re_br" "needs 60 re_p_between" "needs 60 re_p_open" "needs 60 re_p_close"
  "needs 60 re_a" "needs 60 re_bold" "needs 60 re_italic" "needs 60 re_strike"
  "needs 60 re_li" "needs 60 re_list" "needs 60 re_heading" "needs 60 re_tag"
  by (rule needsI; simp add: regex_defs str_def match_exec)+

lemma needs_other:
  "needs NUL re_link_start" "needs NUL re_link_end" "needs LF re_newlines"
  "needs 38 re_decimal" "needs 38 re_hex"
  by (rule needsI; simp add: regex_defs str_def match_exec)+

lemma scan_quiet:
  "needs c0 re \<Longrightarrow> c0 \<notin> set a \<Longrightarrow> scan re (a @ s) = map Text a @ scan re s"
  by (induction a) (auto simp: needs_def)

lemma scan_quiet_all:
  assumes "needs c0 re" "c0 \<notin> set s"
  shows "scan re s = map Text s"
proof -
  have "scan re [] = []" using assms(1) by (simp add: needs_def)
  then show ?thesis using scan_quiet [OF assms, of "[]"] by simp
qed

lemma substitute_Text [simp]: "substitute f (map Text a @ gs) = a @ substitute f gs"
  by (induction a) auto

lemma substitute_fn_Text [simp]:
  "substitute_fn f (map Text a @ gs) =
     (case substitute_fn f gs of Inl e \<Rightarrow> Inl e | Inr t \<Rightarrow> Inr (a @ t))"
  by (induction a) (auto split: sum.splits)

lemma replaced_quiet:
  "needs c0 re \<Longrightarrow> c0 \<notin> set s \<Longrightarrow> replaced re tpl s = s"
  using substitute_Text [of _ s "[]"] by (simp add: replaced_def scan_quiet_all)

lemma replace_cb_quiet:
  "needs c0 re \<Longrightarrow> c0 \<notin> set s \<Longrightarrow> replace_cb re f s = s"
  using substitute_Text [of _ s "[]"] by (simp add: replace_cb_def scan_quiet_all)

lemma replaced_fn_quiet:
  "needs c0 re \<Longrightarrow> c0 \<notin> set s \<Longrightarrow> replaced_fn re f s = Inr s"
  using substitute_fn_Text [of _ s "[]"] by (simp add: replaced_fn_def scan_quiet_all)

lemma split_from_quiet:
  "p \<notin> set s \<Longrightarrow> split_from (p # ps) acc s = [acc @ s]"
  by (induction s arbitrary: acc) auto

lemma split_join_quiet: "p \<notin> set s \<Longrightarrow> join_js rep (split_js (p # ps) s) = s"
  by (simp add: split_js_def split_from_quiet)

lemma decode_quiet: "38 \<notin> set s \<Longrightarrow> decodeHtmlEntities s = s"
  unfolding decodeHtmlEntities_def Let_def entities_def foldl.simps prod.case
  by (simp add: str_def split_join_quiet
      replace_cb_quiet [OF needs_other(4)] replace_cb_quiet [OF needs_other(5)])

subsection \<open>Trimming\<close>

lemma trim_trimmed: "trimmed s \<Longrightarrow> trim s = s"
proof (cases s)
  case Nil
  then show ?thesis by (simp add: trim_def)
next
  case (Cons c cs)
  assume "trimmed s"
  then have c: "\<not> is_space c" and l: "\<not> is_space (last s)"
    by (simp_all add: trimmed_def Cons)
  have 1: "dropWhile is_space s = s" using c by (simp add: Cons)
  have "hd (rev s) = last s" using Cons by (metis hd_rev list.distinct(1))
  then have "dropWhile is_space (rev s) = rev s"
    using l by (simp add: dropWhile_eq_self_iff)
  then show ?thesis by (simp add: trim_def 1)
qed

lemma trimmed_trim: "trimmed (trim s)"
proof -
  define t where "t = dropWhile is_space s"
  define u where "u = dropWhile is_space (rev t)"
  have trim: "trim s = rev u" by (simp add: trim_def t_def u_def)
  show ?thesis
  proof (cases "u = []")
    case True
    then show ?thesis by (simp add: trim trimmed_def)
  next
    case False
    have hdu: "\<not> is_space (hd u)" using False hd_dropWhile [of is_space "rev t"] by (simp add: u_def)
    have split: "rev t = takeWhile is_space (rev t) @ u" by (simp add: u_def)
    have tne: "t \<noteq> []" using False by (auto simp: u_def)
    have "last u = last (rev t)" using False split by (metis last_appendR)
    also have "\<dots> = hd t" using tne by (simp add: last_rev)
    finally have lastu: "\<not> is_space (last u)"
      using tne hd_dropWhile [of is_space s] by (simp add: t_def)
    obtain a as where ru: "rev u = a # as" using False by (cases "rev u") auto
    have "a = last u" using ru False by (metis hd_rev list.sel(1))
    moreover have "last (a # as) = hd u" using ru False by (metis last_rev)
    ultimately show ?thesis using hdu lastu by (simp add: trim ru trimmed_def)
  qed
qed

subsection \<open>Occurrences\<close>

lemma starts_with_iff: "starts_with p s \<longleftrightarrow> (\<exists>v. s = p @ v)"
  by (induction p s rule: starts_with.induct) auto

lemma contains_iff: "contains p s \<longleftrightarrow> (\<exists>u v. s = u @ p @ v)"
proof (induction s)
  case Nil
  then show ?case by (auto simp: starts_with_iff)
next
  case (Cons c cs)
  show ?case
  proof
    assume "contains p (c # cs)"
    then consider "starts_with p (c # cs)" | "contains p cs" by auto
    then show "\<exists>u v. c # cs = u @ p @ v"
    proof cases
      case 1
      then obtain v where "c # cs = p @ v" by (auto simp: starts_with_iff)
      then have "c # cs = [] @ p @ v" by simp
      then show ?thesis by blast
    next
      case 2
      then obtain u v where "cs = u @ p @ v" using Cons by auto
      then have "c # cs = (c # u) @ p @ v" by simp
      then show ?thesis by blast
    qed
  next
    assume "\<exists>u v. c # cs = u @ p @ v"
    then obtain u v where uv: "c # cs = u @ p @ v" by auto
    show "contains p (c # cs)"
    proof (cases u)
      case Nil
      then have "starts_with p (c # cs)" using uv by (auto simp: starts_with_iff)
      then show ?thesis by simp
    next
      case (Cons a u')
      then have "cs = u' @ p @ v" using uv by simp
      then show ?thesis using Cons.IH by auto
    qed
  qed
qed

lemma contains_rev: "contains p (rev s) \<longleftrightarrow> contains (rev p) s"
proof -
  have "(\<exists>u v. rev s = u @ p @ v) \<longleftrightarrow> (\<exists>u v. s = u @ rev p @ v)"
  proof
    assume "\<exists>u v. rev s = u @ p @ v"
    then obtain u v where "rev s = u @ p @ v" by auto
    then have "s = rev v @ rev p @ rev u" by (metis append.assoc rev_append rev_rev_ident)
    then show "\<exists>u v. s = u @ rev p @ v" by blast
  next
    assume "\<exists>u v. s = u @ rev p @ v"
    then obtain u v where "s = u @ rev p @ v" by auto
    then have "rev s = rev v @ p @ rev u" by simp
    then show "\<exists>u v. rev s = u @ p @ v" by blast
  qed
  then show ?thesis by (simp add: contains_iff)
qed

lemma contains_dropWhile: "contains p (dropWhile P s) \<Longrightarrow> contains p s"
proof -
  assume "contains p (dropWhile P s)"
  then obtain u v where "dropWhile P s = u @ p @ v" by (auto simp: contains_iff)
  then have "s = (takeWhile P s @ u) @ p @ v" by (metis append.assoc takeWhile_dropWhile_id)
  then show ?thesis unfolding contains_iff by blast
qed

lemma nl3free_trim: "nl3free s \<Longrightarrow> nl3free (trim s)"
proof -
  assume free: "nl3free s"
  have "contains [LF, LF, LF] (trim s) \<Longrightarrow> contains [LF, LF, LF] s"
  proof -
    assume "contains [LF, LF, LF] (trim s)"
    then have "contains (rev [LF, LF, LF]) (dropWhile is_space (rev (dropWhile is_space s)))"
      by (simp add: trim_def contains_rev)
    then have "contains (rev [LF, LF, LF]) (rev (dropWhile is_space s))"
      by (rule contains_dropWhile)
    then have "contains [LF, LF, LF] (dropWhile is_space s)" by (simp add: contains_rev)
    then show ?thesis by (rule contains_dropWhile)
  qed
  then show ?thesis using free by (auto simp: nl3free_def)
qed

subsection \<open>One step of the scan\<close>

lemma scan_hit:
  "match re (c # cs) = (caps, r) # ms \<Longrightarrow> length r \<le> length cs \<Longrightarrow>
   scan re (c # cs) = Hit caps # scan re r"
  by simp

lemma scan_free:
  assumes "match re [] = []" and "\<And>t. \<not> starts_with p t \<Longrightarrow> match re t = []"
  shows "\<not> contains p s \<Longrightarrow> scan re s = map Text s"
  using assms by (induction s) auto

subsection \<open>Literal patterns\<close>

lemma match_sym: "match (sym a) t = (if starts_with [a] t then [([], drop 1 t)] else [])"
  by (cases t) (auto simp: sym_def)

lemma match_literal:
  "p \<noteq> [] \<Longrightarrow>
   match (cat (map sym p)) t = (if starts_with p t then [([], drop (length p) t)] else [])"
proof (induction p arbitrary: t)
  case Nil
  then show ?case by simp
next
  case (Cons a p)
  show ?case
  proof (cases p)
    case Nil
    then show ?thesis by (simp add: match_sym)
  next
    case (Cons b q)
    have cat: "cat (map sym (a # p)) = Seq (sym a) (cat (map sym p))" by (simp add: Cons)
    have ih: "match (cat (map sym p)) u =
      (if starts_with p u then [([], drop (length p) u)] else [])" for u
      using Cons.IH Cons by simp
    have step: "match (Seq (sym a) r) t =
      (case t of [] \<Rightarrow> [] | x # xs \<Rightarrow> if x = a then match r xs else [])" for r
      by (cases t) (simp_all add: sym_def match_exec)
    show ?thesis unfolding cat step by (cases t) (auto simp: ih)
  qed
qed

lemma match_link_start:
  "match re_link_start t =
     (if starts_with (NUL # str ''LINK_START'') t then [([], drop 11 t)] else [])"
  using match_literal [of "NUL # str ''LINK_START''" t]
  by (simp add: re_link_start_def lit_def str_def eval_nat_numeral)

lemma match_link_end:
  "match re_link_end t =
     (if starts_with (NUL # str ''LINK_END'') t then [([], drop 9 t)] else [])"
  using match_literal [of "NUL # str ''LINK_END''" t]
  by (simp add: re_link_end_def lit_def str_def eval_nat_numeral)

lemma link_start_free:
  "\<not> contains (NUL # str ''LINK_START'') s \<Longrightarrow> replaced re_link_start tpl s = s"
  using scan_free [of re_link_start "NUL # str ''LINK_START''" s] substitute_Text [of _ s "[]"]
  by (simp add: replaced_def match_link_start)

lemma link_end_free:
  "\<not> contains (NUL # str ''LINK_END'') s \<Longrightarrow> replaced re_link_end tpl s = s"
  using scan_free [of re_link_end "NUL # str ''LINK_END''" s] substitute_Text [of _ s "[]"]
  by (simp add: replaced_def match_link_end)

subsection \<open>Collapsing line feeds\<close>

lemma star_greedy_first: "\<exists>ms. star_greedy C s = dropWhile C s # ms"
  by (induction s) auto

lemmas newlines_exec = re_newlines_def sym_def match_exec

lemma newlines_miss: "\<not> starts_with [LF, LF, LF] s \<Longrightarrow> match re_newlines s = []"
proof (cases s)
  case Nil
  then show ?thesis by (simp add: newlines_exec)
next
  case s: (Cons a s1)
  assume miss: "\<not> starts_with [LF, LF, LF] s"
  show ?thesis
  proof (cases s1)
    case Nil
    then show ?thesis by (simp add: s newlines_exec)
  next
    case s1: (Cons b s2)
    show ?thesis
    proof (cases s2)
      case Nil
      then show ?thesis by (simp add: s s1 newlines_exec)
    next
      case (Cons c s3)
      then show ?thesis using miss by (auto simp: s s1 newlines_exec)
    qed
  qed
qed

lemma newlines_hit:
  "\<exists>ms. match re_newlines (LF # LF # LF # s) = ([], dropWhile (\<lambda>c. c = LF) s) # ms"
  using star_greedy_first [of "\<lambda>c. c = LF" s]
  by (auto simp: newlines_exec)

lemma collapse_nil: "collapse_newlines [] = []"
  by (simp add: collapse_newlines_def replaced_def newlines_miss)

lemma collapse_miss:
  "\<not> starts_with [LF, LF, LF] (c # cs) \<Longrightarrow>
   collapse_newlines (c # cs) = c # collapse_newlines cs"
  by (simp add: collapse_newlines_def replaced_def newlines_miss del: starts_with.simps)

lemma collapse_hit:
  "collapse_newlines (LF # LF # LF # s) =
     LF # LF # collapse_newlines (dropWhile (\<lambda>c. c = LF) s)"
proof -
  obtain ms where m: "match re_newlines (LF # LF # LF # s) =
    ([], dropWhile (\<lambda>c. c = LF) s) # ms" using newlines_hit by blast
  have "length (dropWhile (\<lambda>c. c = LF) s) \<le> length (LF # LF # s)"
    using length_dropWhile_le [of "\<lambda>c. c = LF" s] by simp
  then have "scan re_newlines (LF # LF # LF # s) =
    Hit [] # scan re_newlines (dropWhile (\<lambda>c. c = LF) s)"
    using scan_hit [OF m] by simp
  then show ?thesis by (simp add: collapse_newlines_def replaced_def)
qed

lemma collapse_free: "nl3free s \<Longrightarrow> collapse_newlines s = s"
  unfolding nl3free_def
  by (induction s) (simp_all add: collapse_nil collapse_miss del: starts_with.simps)

lemma collapse_head1:
  assumes out: "starts_with [LF] (collapse_newlines s)"
  shows "starts_with [LF] s"
proof (cases s)
  case Nil
  then show ?thesis using out by (simp add: collapse_nil)
next
  case (Cons c cs)
  show ?thesis
  proof (cases "starts_with [LF, LF, LF] s")
    case True
    then show ?thesis by (simp add: Cons)
  next
    case False
    then show ?thesis using out collapse_miss [of c cs] by (simp add: Cons)
  qed
qed

lemma collapse_head2:
  assumes out: "starts_with [LF, LF] (collapse_newlines s)"
  shows "starts_with [LF, LF] s"
proof (cases s)
  case Nil
  then show ?thesis using out by (simp add: collapse_nil)
next
  case (Cons c cs)
  show ?thesis
  proof (cases "starts_with [LF, LF, LF] s")
    case True
    then show ?thesis by (cases cs) (auto simp: Cons)
  next
    case False
    then have "collapse_newlines s = c # collapse_newlines cs"
      using collapse_miss [of c cs] by (simp add: Cons)
    then have "c = LF" and "starts_with [LF] (collapse_newlines cs)" using out by auto
    then show ?thesis using collapse_head1 [of cs] by (simp add: Cons)
  qed
qed

lemma nl3free_collapse: "nl3free (collapse_newlines s)"
proof (induction "length s" arbitrary: s rule: less_induct)
  case less
  show ?case
  proof (cases "starts_with [LF, LF, LF] s")
    case True
    then obtain t where s: "s = LF # LF # LF # t" by (auto simp: starts_with_iff)
    define r where "r = dropWhile (\<lambda>c. c = LF) t"
    have "length r \<le> length t" using length_dropWhile_le [of "\<lambda>c. c = LF" t] by (simp add: r_def)
    then have ih: "nl3free (collapse_newlines r)" using less [of r] by (simp add: s)
    have "\<not> starts_with [LF] r"
    proof (cases r)
      case Nil
      then show ?thesis by simp
    next
      case (Cons a as)
      then have "hd r \<noteq> LF" using hd_dropWhile [of "\<lambda>c. c = LF" t] by (simp add: r_def)
      then show ?thesis by (simp add: Cons)
    qed
    then have "\<not> starts_with [LF] (collapse_newlines r)" using collapse_head1 by blast
    then show ?thesis using ih
      by (cases "collapse_newlines r") (auto simp: s collapse_hit r_def [symmetric] nl3free_def)
  next
    case False
    show ?thesis
    proof (cases s)
      case Nil
      then show ?thesis by (simp add: collapse_nil nl3free_def)
    next
      case (Cons c cs)
      have out: "collapse_newlines s = c # collapse_newlines cs"
        using False collapse_miss [of c cs] by (simp add: Cons)
      have ih: "nl3free (collapse_newlines cs)" using less [of cs] by (simp add: Cons)
      have "\<not> starts_with [LF, LF, LF] (c # collapse_newlines cs)"
      proof
        assume a: "starts_with [LF, LF, LF] (c # collapse_newlines cs)"
        then have "c = LF" and "starts_with [LF, LF] (collapse_newlines cs)" by auto
        then have "starts_with [LF, LF, LF] s" using collapse_head2 [of cs] by (simp add: Cons)
        then show False using False by simp
      qed
      then show ?thesis using ih by (simp add: out nl3free_def del: starts_with.simps)
    qed
  qed
qed

subsection \<open>Text without tags\<close>

lemmas quiet_lt = needs_inline [THEN replaced_quiet] needs_inline [THEN replaced_fn_quiet]

lemma stage_inline_quiet: "60 \<notin> set s \<Longrightarrow> stage_inline s = s"
  by (simp add: stage_inline_def Let_def quiet_lt)

lemma stage_finish_tidy:
  "stage_finish s =
     tidy (decodeHtmlEntities (replaced re_link_end [Lit (str ''>'')]
       (replaced re_link_start [Lit (str ''<'')] (replaced re_tag [Lit []] s))))"
  by (simp add: stage_finish_def Let_def tidy_def collapse_newlines_def)

lemma stage_finish_plain: "plain s \<Longrightarrow> stage_finish s = tidy s"
  by (simp add: stage_finish_tidy plain_def quiet_lt link_start_free link_end_free decode_quiet)

lemma tidy_nil: "tidy [] = []"
  by (simp add: tidy_def collapse_nil trim_def)

lemma converted_no_tags: "60 \<notin> set s \<Longrightarrow> converted s = Inr (stage_finish s)"
proof (cases "s = []")
  case True
  have "plain []" by (simp add: plain_def str_def)
  then show ?thesis using True by (simp add: converted_def stage_finish_plain tidy_nil)
next
  case False
  assume "60 \<notin> set s"
  then show ?thesis using False by (simp add: converted_def stage_inline_quiet quiet_lt)
qed

lemma tidy_id: "nl3free s \<Longrightarrow> trimmed s \<Longrightarrow> tidy s = s"
  by (simp add: tidy_def collapse_free trim_trimmed)

lemma tidy_props: "nl3free (tidy s) \<and> trimmed (tidy s)"
  by (simp add: tidy_def nl3free_trim nl3free_collapse trimmed_trim)

lemma converted_tidy:
  assumes "converted x = Inr y"
  shows "nl3free y \<and> trimmed y"
proof (cases "x = []")
  case True
  then have "y = []" using assms by (simp add: converted_def)
  then show ?thesis by (simp add: nl3free_def trimmed_def)
next
  case False
  then obtain t where "y = stage_finish t"
    using assms by (auto simp: converted_def split: sum.splits)
  then show ?thesis using tidy_props by (simp add: stage_finish_tidy)
qed

subsection \<open>Captures that are always made\<close>

lemma binds_match:
  "binds re n \<Longrightarrow> (caps, r) \<in> set (match re t) \<Longrightarrow> n \<in> fst ` set caps"
proof (induction re arbitrary: caps r t)
  case (Seq a b)
  from Seq.prems(2) obtain c1 r1 c2 where
    a: "(c1, r1) \<in> set (match a t)" and b: "(c2, r) \<in> set (match b r1)" and c: "caps = c1 @ c2"
    by (auto simp: match.simps(3))
  from Seq.prems(1) consider "binds a n" | "binds b n" by auto
  then show ?case
  proof cases
    case 1
    then show ?thesis using Seq.IH(1) [OF _ a] c by auto
  next
    case 2
    then show ?thesis using Seq.IH(2) [OF _ b] c by auto
  qed
next
  case (Alt a b)
  then show ?case by auto
next
  case (Grp m a)
  then show ?case by (auto simp: image_iff)
qed simp_all

lemma binds_capture:
  "binds re n \<Longrightarrow> (caps, r) \<in> set (match re t) \<Longrightarrow> \<exists>v. capture caps n = Some v"
  using binds_match [of re n caps r t] by (cases "map_of caps n") (auto simp: capture_def map_of_eq_None_iff)

lemma scan_hits:
  "Hit caps \<in> set (scan re s) \<Longrightarrow> \<exists>t r. (caps, r) \<in> set (match re t)"
proof (induction re s rule: scan.induct)
  case (1 re)
  show ?case
  proof (cases "match re []")
    case Nil
    then show ?thesis using 1 by simp
  next
    case (Cons m ms)
    obtain caps' r' where m: "m = (caps', r')" by (cases m)
    have here: "(caps', r') \<in> set (match re [])" by (simp add: Cons m)
    have "caps = caps'" using 1 Cons m by simp
    then show ?thesis using here by blast
  qed
next
  case (2 re c cs)
  show ?case
  proof (cases "match re (c # cs)")
    case Nil
    then show ?thesis using 2 by auto
  next
    case (Cons m ms)
    obtain caps' r' where m: "m = (caps', r')" by (cases m)
    have here: "(caps', r') \<in> set (match re (c # cs))" by (simp add: Cons m)
    show ?thesis
    proof (cases "caps = caps'")
      case True
      then show ?thesis using here by blast
    next
      case False
      then show ?thesis using 2 Cons m by (auto split: if_splits)
    qed
  qed
qed

lemma substitute_fn_total:
  "(\<And>caps. Hit caps \<in> set gs \<Longrightarrow> \<exists>v. f caps = Inr v) \<Longrightarrow> \<exists>t. substitute_fn f gs = Inr t"
proof (induction gs)
  case Nil
  then show ?case by simp
next
  case (Cons g gs)
  then obtain t where t: "substitute_fn f gs = Inr t" by auto
  show ?case
  proof (cases g)
    case (Text c)
    then show ?thesis by (simp add: t)
  next
    case (Hit caps)
    then obtain v where "f caps = Inr v" using Cons.prems by auto
    then show ?thesis by (simp add: Hit t)
  qed
qed

lemma replaced_fn_total:
  assumes "binds re n" and "\<And>caps v. capture caps n = Some v \<Longrightarrow> \<exists>w. f caps = Inr w"
  shows "\<exists>t. replaced_fn re f s = Inr t"
  unfolding replaced_fn_def
proof (rule substitute_fn_total)
  fix caps
  assume "Hit caps \<in> set (scan re s)"
  then obtain t r where "(caps, r) \<in> set (match re t)" using scan_hits by blast
  then obtain v where "capture caps n = Some v" using binds_capture [OF assms(1)] by blast
  then show "\<exists>v. f caps = Inr v" using assms(2) by blast
qed

lemma li_total: "\<exists>t. replaced_fn re_li li_callback s = Inr t"
  by (rule replaced_fn_total [of _ 1]) (simp_all add: re_li_def li_callback_def)

lemma heading_total: "\<exists>t. replaced_fn re_heading heading_callback s = Inr t"
  by (rule replaced_fn_total [of _ 1]) (simp_all add: re_heading_def heading_callback_def)

subsection \<open>One occurrence in quiet text\<close>

lemma replace_one:
  assumes "needs c0 re" "c0 \<notin> set pre" "c0 \<notin> set post"
    and "match re (t @ post) = (caps, post) # ms" "t \<noteq> []"
  shows "replaced re tpl (pre @ t @ post) = pre @ expand tpl caps @ post"
proof -
  obtain c cs where t: "t = c # cs" using assms(5) by (cases t) auto
  have "scan re (t @ post) = Hit caps # scan re post"
    using scan_hit [of re c "cs @ post" caps post ms] assms(4) by (simp add: t)
  then have "scan re (pre @ t @ post) = map Text pre @ Hit caps # map Text post"
    using scan_quiet [OF assms(1,2)] scan_quiet_all [OF assms(1,3)] by simp
  then show ?thesis
    using substitute_Text [of "expand tpl" post "[]"] by (simp add: replaced_def)
qed

subsection \<open>Literal heads, letter case apart\<close>

lemma canonicalize_numeral [simp]:
  "canonicalize (numeral k) =
     (if 97 \<le> (numeral k :: nat) \<and> (numeral k :: nat) \<le> 122 then numeral k - 32 else numeral k)"
  by (simp add: canonicalize_def)

lemma match_seq_cat_i:
  "q \<noteq> [] \<Longrightarrow>
   match (Seq (cat (map sym_i q)) k) s =
     (if starts_with_i q s then match k (drop (length q) s) else [])"
proof (induction q arbitrary: s)
  case Nil
  then show ?case by simp
next
  case (Cons a q)
  show ?case
  proof (cases q)
    case Nil
    then show ?thesis
      by (cases s) (simp_all add: sym_i_def starts_with_i_def match_exec)
  next
    case (Cons b q')
    have cat: "cat (map sym_i (a # q)) = Seq (sym_i a) (cat (map sym_i q))" by (simp add: Cons)
    have ih: "match (Seq (cat (map sym_i q)) k) u =
      (if starts_with_i q u then match k (drop (length q) u) else [])" for u
      using Cons.IH Cons by simp
    have "match (Seq (cat (map sym_i (a # q))) k) s =
      match (Seq (sym_i a) (Seq (cat (map sym_i q)) k)) s"
      unfolding cat by (rule match_seq_assoc)
    also have "\<dots> = (if starts_with_i (a # q) s then match k (drop (length (a # q)) s) else [])"
      by (cases s) (simp_all add: sym_i_def ih starts_with_i_def add: match_exec)
    finally show ?thesis .
  qed
qed

lemma match_seq_lit_i:
  "p \<noteq> [] \<Longrightarrow>
   match (Seq (lit_i p) k) s =
     (if starts_with_i (str p) s then match k (drop (length p) s) else [])"
  using match_seq_cat_i [of "str p" k s] by (simp add: lit_i_def str_def)

lemma match_lit_i:
  "p \<noteq> [] \<Longrightarrow>
   match (lit_i p) s = (if starts_with_i (str p) s then [([], drop (length p) s)] else [])"
proof -
  assume "p \<noteq> []"
  then have "match (Seq (lit_i p) Eps) s =
    (if starts_with_i (str p) s then match Eps (drop (length p) s) else [])"
    by (rule match_seq_lit_i)
  moreover have "match (Seq r Eps) s = match r s" for r
    by (simp add: match.simps(3) case_prod_beta) (induction "match r s", auto)
  ultimately show ?thesis by simp
qed

subsection \<open>Repetition over a run\<close>

lemma star_skip:
  assumes "\<And>x. x \<in> set xs \<Longrightarrow> C x" and "\<And>x t. x \<in> set xs \<Longrightarrow> match k (x # t) = []"
  shows "match (Seq (Star C) k) (xs @ t) = match (Seq (Star C) k) t"
  using assms by (induction xs) (simp_all add: match_exec)

subsection \<open>Symbolic matching of the tag patterns\<close>

lemma space_unit: "is_space x \<Longrightarrow> canonicalize x = x \<and> x \<noteq> 47 \<and> x \<noteq> 60 \<and> x \<noteq> 62"
  by (auto simp: is_space_def canonicalize_def)

lemmas sx = match_exec match_seq_lit_i match_lit_i starts_with_i_def str_def opt_def
  not_gt_def any_unit_def

lemma simple_append [simp]: "simple (a @ b) \<longleftrightarrow> simple a \<and> simple b"
  by (auto simp: simple_def)

lemma simple_Cons [simp]: "simple (c # s) \<longleftrightarrow> c \<noteq> 60 \<and> c \<noteq> 38 \<and> c \<noteq> NUL \<and> simple s"
  by (auto simp: simple_def)

lemma simple_Nil [simp]: "simple []"
  by (simp add: simple_def)

lemma contains_set: "contains p s \<Longrightarrow> set p \<subseteq> set s"
  by (auto simp: contains_iff)

lemma simple_plain: "simple s \<Longrightarrow> plain s"
  using contains_set [of "NUL # str ''LINK_START''" s] contains_set [of "NUL # str ''LINK_END''" s]
  by (auto simp: simple_def plain_def)

lemma converted_via_inline:
  "s \<noteq> [] \<Longrightarrow> simple (stage_inline s) \<Longrightarrow> converted s = Inr (tidy (stage_inline s))"
  using stage_finish_plain [OF simple_plain, of "stage_inline s"]
  by (simp add: converted_def quiet_lt simple_def)

lemma br_match:
  assumes name: "map canonicalize name = str ''BR''"
    and ws: "\<And>x. x \<in> set ws \<Longrightarrow> is_space x"
    and slash: "slash = [] \<or> slash = str ''/''"
  shows "match re_br (str ''<'' @ name @ ws @ slash @ str ''>'' @ post) = [([], post)]"
proof -
  obtain b r where n: "name = [b, r]" "canonicalize b = 66" "canonicalize r = 82"
    using name by (auto simp: str_def)
  let ?k = "Seq (Alt (lit_i ''/'') Eps) (lit_i ''>'')"
  have blk: "match ?k (x # t) = []" if "x \<in> set ws" for x t
    using space_unit [OF ws [OF that]] by (simp add: sx)
  have skip: "match (Seq (Star is_space) ?k) (ws @ t) = match (Seq (Star is_space) ?k) t" for t
    using ws blk by (rule star_skip)
  have end1: "match (Seq (Star is_space) ?k) (62 # post) = [([], post)]"
    by (simp add: sx is_space_def)
  have end2: "match (Seq (Star is_space) ?k) (47 # 62 # post) = [([], post)]"
    by (simp add: sx is_space_def)
  have "match re_br (60 # b # r # ws @ slash @ 62 # post) =
        match (Seq (Star is_space) ?k) (ws @ slash @ 62 # post)"
    by (simp add: re_br_def sx n)
  also have "\<dots> = [([], post)]"
    using slash end1 end2 by (auto simp: skip str_def)
  finally show ?thesis by (simp add: n str_def)
qed

subsection \<open>Runs of line feeds\<close>

lemma collapse_prefix:
  "LF \<notin> set pre \<Longrightarrow> collapse_newlines (pre @ s) = pre @ collapse_newlines s"
  by (induction pre) (simp_all add: collapse_miss)

lemma dropWhile_replicate: "P x \<Longrightarrow> dropWhile P (replicate m x @ ys) = dropWhile P ys"
  by (induction m) simp_all

lemma nl3free_no_LF: "LF \<notin> set s \<Longrightarrow> nl3free s"
  using contains_set [of "[LF, LF, LF]" s] by (auto simp: nl3free_def)

lemma collapse_run:
  assumes "LF \<notin> set pre" "LF \<notin> set post" "3 \<le> n"
  shows "collapse_newlines (pre @ replicate n LF @ post) = pre @ [LF, LF] @ post"
proof -
  obtain m where n: "n = Suc (Suc (Suc m))"
    using assms(3) by (metis Suc_le_D eval_nat_numeral(3) Suc_le_mono numeral_2_eq_2)
  have "dropWhile (\<lambda>c. c = LF) (replicate m LF @ post) = post"
    using assms(2) by (simp add: dropWhile_replicate dropWhile_eq_self_iff) (cases post, auto)
  then have "collapse_newlines (replicate n LF @ post) = LF # LF # collapse_newlines post"
    by (simp add: n collapse_hit)
  then show ?thesis
    using assms(1,2) by (simp add: collapse_prefix collapse_free nl3free_no_LF)
qed

lemma trimmed_around:
  "pre \<noteq> [] \<Longrightarrow> post \<noteq> [] \<Longrightarrow> trimmed pre \<Longrightarrow> trimmed post \<Longrightarrow> trimmed (pre @ mid @ post)"
  by (cases pre; cases post) (auto simp: trimmed_def)

subsection \<open>Patterns that cannot match\<close>


lemma canonicalize_plain [simp]:
  "canonicalize x = 34 \<longleftrightarrow> x = 34" "canonicalize x = 47 \<longleftrightarrow> x = 47"
  "canonicalize x = 60 \<longleftrightarrow> x = 60" "canonicalize x = 62 \<longleftrightarrow> x = 62"
  by (auto simp: canonicalize_def)

subsection \<open>Paragraph tags\<close>

lemma p_tail:
  assumes "62 \<notin> set attrs"
  shows "match (Seq (Star not_gt) (lit_i ''>'')) (attrs @ 62 # post) = [([], post)]"
proof -
  have "match (Seq (Star not_gt) (lit_i ''>'')) (attrs @ 62 # post) =
        match (Seq (Star not_gt) (lit_i ''>'')) (62 # post)"
    by (rule star_skip) (use assms in \<open>auto simp: sx\<close>)
  then show ?thesis by (simp add: sx)
qed




subsection \<open>Running the inline stages on text with one tag\<close>

lemma substitute_Text_all [simp]: "substitute f (map Text a) = a"
  using substitute_Text [of f a "[]"] by simp

lemma substitute_fn_Text_all [simp]: "substitute_fn f (map Text a) = Inr a"
  using substitute_fn_Text [of f a "[]"] by simp

lemma needs_nil: "needs c0 re \<Longrightarrow> match re [] = []"
  by (simp add: needs_def)

lemma needs_miss: "needs c0 re \<Longrightarrow> c \<noteq> c0 \<Longrightarrow> match re (c # cs) = []"
  by (simp add: needs_def)

lemmas lt_run =
  needs_inline [THEN needs_nil] needs_inline [THEN needs_miss]
  needs_inline [THEN scan_quiet] needs_inline [THEN scan_quiet_all]
  replaced_def replaced_fn_def


lemma p_between_miss: "c \<noteq> 47 \<Longrightarrow> match re_p_between (60 # c # t) = []"
  by (simp add: re_p_between_def sx)








subsection \<open>Where the earlier patterns give up on a tag\<close>

lemmas tx = sx tag_rest_def

lemma br_miss2: "canonicalize c \<noteq> 66 \<Longrightarrow> match re_br (60 # c # t) = []"
  by (auto simp: re_br_def tx)

lemma br_miss3: "canonicalize d \<noteq> 82 \<Longrightarrow> match re_br (60 # c # d # t) = []"
  by (auto simp: re_br_def tx)

lemma p_between_miss3: "canonicalize d \<noteq> 80 \<Longrightarrow> match re_p_between (60 # c # d # t) = []"
  by (auto simp: re_p_between_def tx)

lemma p_open_miss2: "canonicalize c \<noteq> 80 \<Longrightarrow> match re_p_open (60 # c # t) = []"
  by (auto simp: re_p_open_def tx)

lemma p_close_miss2: "c \<noteq> 47 \<Longrightarrow> match re_p_close (60 # c # t) = []"
  by (auto simp: re_p_close_def tx)

lemma p_close_miss3: "canonicalize d \<noteq> 80 \<Longrightarrow> match re_p_close (60 # c # d # t) = []"
  by (auto simp: re_p_close_def tx)

lemma a_miss2: "canonicalize c \<noteq> 65 \<Longrightarrow> match re_a (60 # c # t) = []"
  by (auto simp: re_a_def tx)

lemma bold_miss2:
  "canonicalize c \<noteq> 66 \<Longrightarrow> canonicalize c \<noteq> 83 \<Longrightarrow> canonicalize c \<noteq> 47 \<Longrightarrow>
   match re_bold (60 # c # t) = []"
  by (auto simp: re_bold_def tx)

lemma bold_miss3:
  "canonicalize c \<noteq> 66 \<Longrightarrow> canonicalize c \<noteq> 83 \<Longrightarrow> match re_bold (60 # 47 # c # t) = []"
  by (auto simp: re_bold_def tx)

lemma bold_miss_s2:
  "canonicalize c = 83 \<Longrightarrow> canonicalize d \<noteq> 84 \<Longrightarrow>
   match re_bold (60 # c # d # t) = [] \<and> match re_bold (60 # 47 # c # d # t) = []"
  by (auto simp: re_bold_def tx)

lemma bold_miss_s4:
  "canonicalize c = 83 \<Longrightarrow> canonicalize f \<noteq> 79 \<Longrightarrow>
   match re_bold (60 # c # d # e # f # t) = [] \<and> match re_bold (60 # 47 # c # d # e # f # t) = []"
  by (auto simp: re_bold_def tx)

lemma italic_miss2:
  "canonicalize c \<noteq> 73 \<Longrightarrow> canonicalize c \<noteq> 69 \<Longrightarrow> canonicalize c \<noteq> 47 \<Longrightarrow>
   match re_italic (60 # c # t) = []"
  by (auto simp: re_italic_def tx)

lemma italic_miss3:
  "canonicalize c \<noteq> 73 \<Longrightarrow> canonicalize c \<noteq> 69 \<Longrightarrow> match re_italic (60 # 47 # c # t) = []"
  by (auto simp: re_italic_def tx)

subsection \<open>Bold tags\<close>

lemma not_space [simp]: "\<not> is_space 47" "\<not> is_space 60" "\<not> is_space 62"
  by (simp_all add: is_space_def)

lemma tag_shape:
  assumes "rest = [] \<or> (is_space (hd rest) \<and> 60 \<notin> set rest \<and> 62 \<notin> set rest)"
  obtains "rest = []" | w attrs where "rest = w # attrs" "is_space w" "60 \<notin> set attrs" "62 \<notin> set attrs"
  using assms by (cases rest) auto

lemma slash_cases:
  assumes "slash = [] \<or> slash = str ''/''"
  obtains "slash = []" | "slash = [47]"
  using assms by (auto simp: str_def)

lemma bold_names:
  assumes "map canonicalize name = str ''B'' \<or> map canonicalize name = str ''STRONG''"
  obtains n1 where "name = [n1]" "canonicalize n1 = 66"
  | n1 n2 n3 n4 n5 n6 where "name = [n1, n2, n3, n4, n5, n6]" "canonicalize n1 = 83"
      "canonicalize n2 = 84" "canonicalize n3 = 82" "canonicalize n4 = 79"
      "canonicalize n5 = 78" "canonicalize n6 = 71"
  using assms by (elim disjE) (auto simp: str_def)

lemma bold_match:
  assumes "slash = [] \<or> slash = str ''/''"
    and "map canonicalize name = str ''B'' \<or> map canonicalize name = str ''STRONG''"
    and "rest = [] \<or> (is_space (hd rest) \<and> 60 \<notin> set rest \<and> 62 \<notin> set rest)"
  shows "match re_bold (str ''<'' @ slash @ name @ rest @ str ''>'' @ post) = [([], post)]"
proof -
  have tail: "match (Seq (Atom is_space) (Seq (Star not_gt) (lit_i ''>''))) (rest @ 62 # post)
      @ match (lit_i ''>'') (rest @ 62 # post) = [([], post)]"
  proof (rule tag_shape [OF assms(3)])
    assume "rest = []"
    then show ?thesis by (simp add: tx)
  next
    fix w attrs
    assume r: "rest = w # attrs" "is_space w" "60 \<notin> set attrs" "62 \<notin> set attrs"
    show ?thesis using r(2) space_unit [OF r(2)] p_tail [OF r(4), of post] by (simp add: tx r(1))
  qed
  show ?thesis
  proof (rule slash_cases [OF assms(1)]; rule bold_names [OF assms(2)])
  qed (use tail in \<open>simp_all add: re_bold_def tx\<close>)
qed

lemma letter_not_space:
  "65 \<le> canonicalize x \<Longrightarrow> canonicalize x \<le> 90 \<Longrightarrow> \<not> is_space x \<and> x \<noteq> 62 \<and> x \<noteq> 47 \<and> x \<noteq> 60"
  by (auto simp: is_space_def canonicalize_def split: if_splits)

lemma space_simps:
  "is_space x \<Longrightarrow> canonicalize x = x"
  "is_space x \<Longrightarrow> x \<noteq> 47 \<and> x \<noteq> 60 \<and> x \<noteq> 62 \<and> x \<noteq> 65 \<and> x \<noteq> 66 \<and> x \<noteq> 68 \<and> x \<noteq> 69
     \<and> x \<noteq> 73 \<and> x \<noteq> 79 \<and> x \<noteq> 80 \<and> x \<noteq> 82 \<and> x \<noteq> 83 \<and> x \<noteq> 84"
  by (auto simp: is_space_def canonicalize_def)

lemmas miss_rules =
  br_miss2 br_miss3 p_between_miss p_between_miss3 p_open_miss2 p_close_miss2 p_close_miss3
  a_miss2 bold_miss2 bold_miss3 bold_miss_s2 bold_miss_s4 italic_miss2 italic_miss3 space_simps

lemma bold_misses:
  assumes "slash = [] \<or> slash = str ''/''"
    and "map canonicalize name = str ''B'' \<or> map canonicalize name = str ''STRONG''"
    and "rest = [] \<or> (is_space (hd rest) \<and> 60 \<notin> set rest \<and> 62 \<notin> set rest)"
  shows "match re_br (60 # slash @ name @ rest @ 62 # post) = []
    \<and> match re_p_between (60 # slash @ name @ rest @ 62 # post) = []
    \<and> match re_p_open (60 # slash @ name @ rest @ 62 # post) = []
    \<and> match re_p_close (60 # slash @ name @ rest @ 62 # post) = []
    \<and> match re_a (60 # slash @ name @ rest @ 62 # post) = []"
proof (rule tag_shape [OF assms(3)]; rule slash_cases [OF assms(1)]; rule bold_names [OF assms(2)])
qed (simp_all add: miss_rules)

lemma bold_fires:
  assumes "simple pre" "simple post" "60 \<notin> set body"
    and "match re_br (60 # body @ post) = [] \<and> match re_p_between (60 # body @ post) = []
      \<and> match re_p_open (60 # body @ post) = [] \<and> match re_p_close (60 # body @ post) = []
      \<and> match re_a (60 # body @ post) = []"
    and "match re_bold (60 # body @ post) = [([], post)]"
  shows "stage_inline (pre @ 60 # body @ post) = pre @ str ''*'' @ post"
  using assms by (simp add: stage_inline_def Let_def simple_def lt_run str_def)

lemma bold_stage:
  assumes "simple pre" "simple post" "slash = [] \<or> slash = str ''/''"
    and "map canonicalize name = str ''B'' \<or> map canonicalize name = str ''STRONG''"
    and "rest = [] \<or> (is_space (hd rest) \<and> 60 \<notin> set rest \<and> 62 \<notin> set rest)"
  shows "stage_inline (pre @ str ''<'' @ slash @ name @ rest @ str ''>'' @ post) = pre @ str ''*'' @ post"
proof -
  have "60 \<notin> set name" using assms(4) by (rule bold_names) auto
  then have body: "60 \<notin> set (slash @ name @ rest @ [62])"
    using assms(3,5) by (auto simp: str_def)
  show ?thesis
    using bold_fires [OF assms(1,2) body, of ] bold_misses [OF assms(3,4,5), of post]
      bold_match [OF assms(3,4,5), of post]
    by (simp add: str_def)
qed

subsection \<open>Italic tags\<close>

lemma italic_names:
  assumes "map canonicalize name = str ''I'' \<or> map canonicalize name = str ''EM''"
  obtains n1 where "name = [n1]" "canonicalize n1 = 73"
  | n1 n2 where "name = [n1, n2]" "canonicalize n1 = 69" "canonicalize n2 = 77"
  using assms by (elim disjE) (auto simp: str_def)

lemma italic_match:
  assumes "slash = [] \<or> slash = str ''/''"
    and "map canonicalize name = str ''I'' \<or> map canonicalize name = str ''EM''"
    and "rest = [] \<or> (is_space (hd rest) \<and> 60 \<notin> set rest \<and> 62 \<notin> set rest)"
  shows "match re_italic (str ''<'' @ slash @ name @ rest @ str ''>'' @ post) = [([], post)]"
proof (rule tag_shape [OF assms(3)]; rule slash_cases [OF assms(1)]; rule italic_names [OF assms(2)])
qed (simp_all add: re_italic_def tx str_def p_tail space_simps letter_not_space)

lemma italic_misses:
  assumes "slash = [] \<or> slash = str ''/''"
    and "map canonicalize name = str ''I'' \<or> map canonicalize name = str ''EM''"
    and "rest = [] \<or> (is_space (hd rest) \<and> 60 \<notin> set rest \<and> 62 \<notin> set rest)"
  shows "match re_br (60 # slash @ name @ rest @ 62 # post) = []
    \<and> match re_p_between (60 # slash @ name @ rest @ 62 # post) = []
    \<and> match re_p_open (60 # slash @ name @ rest @ 62 # post) = []
    \<and> match re_p_close (60 # slash @ name @ rest @ 62 # post) = []
    \<and> match re_a (60 # slash @ name @ rest @ 62 # post) = []
    \<and> match re_bold (60 # slash @ name @ rest @ 62 # post) = []"
proof (rule tag_shape [OF assms(3)]; rule slash_cases [OF assms(1)]; rule italic_names [OF assms(2)])
qed (simp_all add: miss_rules)

lemma italic_fires:
  assumes "simple pre" "simple post" "60 \<notin> set body"
    and "match re_br (60 # body @ post) = []
      \<and> match re_p_between (60 # body @ post) = []
      \<and> match re_p_open (60 # body @ post) = []
      \<and> match re_p_close (60 # body @ post) = []
      \<and> match re_a (60 # body @ post) = []
      \<and> match re_bold (60 # body @ post) = []"
    and "match re_italic (60 # body @ post) = [([], post)]"
  shows "stage_inline (pre @ 60 # body @ post) = pre @ str ''_'' @ post"
  using assms by (simp add: stage_inline_def Let_def simple_def lt_run str_def)

lemma italic_stage:
  assumes "simple pre" "simple post" "slash = [] \<or> slash = str ''/''"
    and "map canonicalize name = str ''I'' \<or> map canonicalize name = str ''EM''"
    and "rest = [] \<or> (is_space (hd rest) \<and> 60 \<notin> set rest \<and> 62 \<notin> set rest)"
  shows "stage_inline (pre @ str ''<'' @ slash @ name @ rest @ str ''>'' @ post) = pre @ str ''_'' @ post"
proof -
  have "60 \<notin> set name" using assms(4) by (rule italic_names) auto
  then have body: "60 \<notin> set (slash @ name @ rest @ [62])"
    using assms(3,5) by (auto simp: str_def)
  show ?thesis
    using italic_fires [OF assms(1,2) body] italic_misses [OF assms(3,4,5), of post]
      italic_match [OF assms(3,4,5), of post]
    by (simp add: str_def)
qed


subsection \<open>Strike tags\<close>

lemma strike_names:
  assumes "map canonicalize name = str ''S'' \<or> map canonicalize name = str ''STRIKE'' \<or> map canonicalize name = str ''DEL''"
  obtains n1 where "name = [n1]" "canonicalize n1 = 83"
  | n1 n2 n3 n4 n5 n6 where "name = [n1, n2, n3, n4, n5, n6]" "canonicalize n1 = 83" "canonicalize n2 = 84" "canonicalize n3 = 82" "canonicalize n4 = 73" "canonicalize n5 = 75" "canonicalize n6 = 69"
  | n1 n2 n3 where "name = [n1, n2, n3]" "canonicalize n1 = 68" "canonicalize n2 = 69" "canonicalize n3 = 76"
  using assms by (elim disjE) (auto simp: str_def)

lemma strike_match:
  assumes "slash = [] \<or> slash = str ''/''"
    and "map canonicalize name = str ''S'' \<or> map canonicalize name = str ''STRIKE'' \<or> map canonicalize name = str ''DEL''"
    and "rest = [] \<or> (is_space (hd rest) \<and> 60 \<notin> set rest \<and> 62 \<notin> set rest)"
  shows "match re_strike (str ''<'' @ slash @ name @ rest @ str ''>'' @ post) = [([], post)]"
proof (rule tag_shape [OF assms(3)]; rule slash_cases [OF assms(1)]; rule strike_names [OF assms(2)])
qed (simp_all add: re_strike_def tx str_def p_tail space_simps letter_not_space)

lemma strike_misses:
  assumes "slash = [] \<or> slash = str ''/''"
    and "map canonicalize name = str ''S'' \<or> map canonicalize name = str ''STRIKE'' \<or> map canonicalize name = str ''DEL''"
    and "rest = [] \<or> (is_space (hd rest) \<and> 60 \<notin> set rest \<and> 62 \<notin> set rest)"
  shows "match re_br (60 # slash @ name @ rest @ 62 # post) = []
    \<and> match re_p_between (60 # slash @ name @ rest @ 62 # post) = []
    \<and> match re_p_open (60 # slash @ name @ rest @ 62 # post) = []
    \<and> match re_p_close (60 # slash @ name @ rest @ 62 # post) = []
    \<and> match re_a (60 # slash @ name @ rest @ 62 # post) = []
    \<and> match re_bold (60 # slash @ name @ rest @ 62 # post) = []
    \<and> match re_italic (60 # slash @ name @ rest @ 62 # post) = []"
proof (rule tag_shape [OF assms(3)]; rule slash_cases [OF assms(1)]; rule strike_names [OF assms(2)])
qed (simp_all add: miss_rules)

lemma strike_fires:
  assumes "simple pre" "simple post" "60 \<notin> set body"
    and "match re_br (60 # body @ post) = []
      \<and> match re_p_between (60 # body @ post) = []
      \<and> match re_p_open (60 # body @ post) = []
      \<and> match re_p_close (60 # body @ post) = []
      \<and> match re_a (60 # body @ post) = []
      \<and> match re_bold (60 # body @ post) = []
      \<and> match re_italic (60 # body @ post) = []"
    and "match re_strike (60 # body @ post) = [([], post)]"
  shows "stage_inline (pre @ 60 # body @ post) = pre @ str ''~'' @ post"
  using assms by (simp add: stage_inline_def Let_def simple_def lt_run str_def)

lemma strike_stage:
  assumes "simple pre" "simple post" "slash = [] \<or> slash = str ''/''"
    and "map canonicalize name = str ''S'' \<or> map canonicalize name = str ''STRIKE'' \<or> map canonicalize name = str ''DEL''"
    and "rest = [] \<or> (is_space (hd rest) \<and> 60 \<notin> set rest \<and> 62 \<notin> set rest)"
  shows "stage_inline (pre @ str ''<'' @ slash @ name @ rest @ str ''>'' @ post) = pre @ str ''~'' @ post"
proof -
  have "60 \<notin> set name" using assms(4) by (rule strike_names) auto
  then have body: "60 \<notin> set (slash @ name @ rest @ [62])"
    using assms(3,5) by (auto simp: str_def)
  show ?thesis
    using strike_fires [OF assms(1,2) body] strike_misses [OF assms(3,4,5), of post]
      strike_match [OF assms(3,4,5), of post]
    by (simp add: str_def)
qed

subsection \<open>Groups around a repetition\<close>

lemma star_greedy_length: "r \<in> set (star_greedy C s) \<Longrightarrow> length r \<le> length s"
  by (induction s) (auto split: if_splits)

lemma star_lazy_length: "r \<in> set (star_lazy C s) \<Longrightarrow> length r \<le> length s"
  by (induction s) (auto split: if_splits)

lemma grp_shift:
  assumes "\<And>r. r \<in> set rs \<Longrightarrow> length r \<le> length xs"
  shows "concat (map (\<lambda>r. map (\<lambda>(c2, r2). ((n, acc @ take (length (x # xs) - length r) (x # xs)) # c2, r2))
                        (match k r)) rs) =
         concat (map (\<lambda>r. map (\<lambda>(c2, r2). ((n, (acc @ [x]) @ take (length xs - length r) xs) # c2, r2))
                        (match k r)) rs)"
  using assms
proof (induction rs)
  case Nil
  show ?case by simp
next
  case (Cons r rs)
  have "length r \<le> length xs" using Cons.prems by simp
  then have "take (length (x # xs) - length r) (x # xs) = x # take (length xs - length r) xs"
    by (simp add: Suc_diff_le)
  then show ?case using Cons by simp
qed

lemma grp_star_Nil: "grp_star n C k acc [] = map (\<lambda>(c2, r2). ((n, acc) # c2, r2)) (match k [])"
  by (simp add: grp_star_def)

lemma grp_star_Cons:
  "grp_star n C k acc (x # xs) =
     (if C x then grp_star n C k (acc @ [x]) xs else [])
     @ map (\<lambda>(c2, r2). ((n, acc) # c2, r2)) (match k (x # xs))"
  using grp_shift [of "star_greedy C xs" xs n acc x k] star_greedy_length [of _ C xs]
  by (simp add: grp_star_def)

lemma grp_lazy_Cons:
  "grp_lazy n C k acc (x # xs) =
     map (\<lambda>(c2, r2). ((n, acc) # c2, r2)) (match k (x # xs))
     @ (if C x then grp_lazy n C k (acc @ [x]) xs else [])"
  using grp_shift [of "star_lazy C xs" xs n acc x k] star_lazy_length [of _ C xs]
  by (simp add: grp_lazy_def)

lemma match_seq_grp_star: "match (Seq (Grp n (Star C)) k) s = grp_star n C k [] s"
  by (simp add: match.simps(3) grp_star_def map_concat comp_def case_prod_beta)

lemma match_seq_grp_lazy: "match (Seq (Grp n (LazyStar C)) k) s = grp_lazy n C k [] s"
  by (simp add: match.simps(3) grp_lazy_def map_concat comp_def case_prod_beta)

lemma match_seq_grp_rep1:
  "match (Seq (Grp n (rep1 C)) k) s =
     (case s of [] \<Rightarrow> [] | x # xs \<Rightarrow> if C x then grp_star n C k [x] xs else [])"
proof (cases s)
  case Nil
  then show ?thesis by (simp add: match.simps(3) rep1_def)
next
  case (Cons x xs)
  show ?thesis
    using grp_shift [of "star_greedy C xs" xs n "[]" x k] star_greedy_length [of _ C xs]
    by (simp add: Cons match.simps(3) rep1_def grp_star_def map_concat comp_def case_prod_beta)
qed

lemma grp_star_skip:
  assumes "\<And>x. x \<in> set xs \<Longrightarrow> C x" and "\<And>x t. x \<in> set xs \<Longrightarrow> match k (x # t) = []"
  shows "grp_star n C k acc (xs @ t) = grp_star n C k (acc @ xs) t"
  using assms by (induction xs arbitrary: acc) (simp_all add: grp_star_Cons)

lemma grp_lazy_skip:
  assumes "\<And>x. x \<in> set xs \<Longrightarrow> C x" and "\<And>x t. x \<in> set xs \<Longrightarrow> match k (x # t) = []"
  shows "grp_lazy n C k acc (xs @ t) = grp_lazy n C k (acc @ xs) t"
  using assms by (induction xs arbitrary: acc) (simp_all add: grp_lazy_Cons)

subsection \<open>Numeric entities\<close>

lemma match_seq_cat:
  "q \<noteq> [] \<Longrightarrow>
   match (Seq (cat (map sym q)) k) s = (if starts_with q s then match k (drop (length q) s) else [])"
proof (induction q arbitrary: s)
  case Nil
  then show ?case by simp
next
  case (Cons a q)
  show ?case
  proof (cases q)
    case Nil
    then show ?thesis by (cases s) (simp_all add: sym_def match_exec)
  next
    case (Cons b q')
    have cat: "cat (map sym (a # q)) = Seq (sym a) (cat (map sym q))" by (simp add: Cons)
    have ih: "match (Seq (cat (map sym q)) k) u =
      (if starts_with q u then match k (drop (length q) u) else [])" for u
      using Cons.IH Cons by simp
    have "match (Seq (cat (map sym (a # q))) k) s =
      match (Seq (sym a) (Seq (cat (map sym q)) k)) s"
      unfolding cat by (rule match_seq_assoc)
    also have "\<dots> = (if starts_with (a # q) s then match k (drop (length (a # q)) s) else [])"
      by (cases s) (auto simp: sym_def ih match_exec)
    finally show ?thesis .
  qed
qed

lemma match_seq_lit:
  "p \<noteq> [] \<Longrightarrow>
   match (Seq (lit p) k) s = (if starts_with (str p) s then match k (drop (length p) s) else [])"
  using match_seq_cat [of "str p" k s] by (simp add: lit_def str_def)

lemma match_lit:
  "p \<noteq> [] \<Longrightarrow> match (lit p) s = (if starts_with (str p) s then [([], drop (length p) s)] else [])"
  using match_literal [of "str p" s] by (simp add: lit_def str_def)

lemma digit_units: "is_digit x \<Longrightarrow> x \<noteq> 59 \<and> x \<noteq> 38 \<and> x \<noteq> 120 \<and> digit_value x < 10"
  by (auto simp: is_digit_def digit_value_def)

lemma hex_units: "is_hex_digit x \<Longrightarrow> x \<noteq> 59 \<and> x \<noteq> 38 \<and> x \<noteq> 120 \<and> digit_value x < 16"
  by (auto simp: is_hex_digit_def digit_value_def)

lemma numeric_tail:
  assumes "\<And>x. x \<in> set ds \<Longrightarrow> C x \<and> x \<noteq> 59"
  shows "grp_star 1 C (lit '';'') acc (ds @ [59]) = [([(1, acc @ ds)], [])]"
proof -
  have "grp_star 1 C (lit '';'') acc (ds @ [59]) = grp_star 1 C (lit '';'') (acc @ ds) [59]"
    by (rule grp_star_skip) (use assms in \<open>auto simp: match_lit str_def\<close>)
  then show ?thesis by (simp add: grp_star_Cons grp_star_Nil match_lit str_def)
qed

lemma decimal_match:
  assumes "ds \<noteq> []" "\<And>x. x \<in> set ds \<Longrightarrow> is_digit x"
  shows "match re_decimal (38 # 35 # ds @ [59]) = [([(1, ds)], [])]"
proof -
  obtain d ds' where ds: "ds = d # ds'" using assms(1) by (cases ds) auto
  have "grp_star 1 is_digit (lit '';'') [d] (ds' @ [59]) = [([(1, [d] @ ds')], [])]"
    by (rule numeric_tail) (use assms(2) digit_units ds in auto)
  then show ?thesis
    using assms(2) by (simp add: re_decimal_def match_seq_lit match_seq_grp_rep1 str_def ds)
qed

lemma hex_match:
  assumes "ds \<noteq> []" "\<And>x. x \<in> set ds \<Longrightarrow> is_hex_digit x"
  shows "match re_hex (38 # 35 # 120 # ds @ [59]) = [([(1, ds)], [])]"
proof -
  obtain d ds' where ds: "ds = d # ds'" using assms(1) by (cases ds) auto
  have "grp_star 1 is_hex_digit (lit '';'') [d] (ds' @ [59]) = [([(1, [d] @ ds')], [])]"
    by (rule numeric_tail) (use assms(2) hex_units ds in auto)
  then show ?thesis
    using assms(2) by (simp add: re_hex_def match_seq_lit match_seq_grp_rep1 str_def ds)
qed

lemma parseInt_digits:
  assumes "ds \<noteq> []" "\<And>x. x \<in> set ds \<Longrightarrow> digit_value x < radix"
  shows "parseInt ds radix = to_number (digits_value radix ds)"
  using assms by (simp add: parseInt_def Let_def takeWhile_eq_all_conv [THEN iffD2])

lemma split_head_miss:
  "\<not> starts_with (p # ps) (c # cs) \<Longrightarrow> p \<notin> set cs \<Longrightarrow>
   join_js rep (split_js (p # ps) (c # cs)) = c # cs"
  by (simp add: split_js_def split_from_quiet del: starts_with.simps)

lemma not_apostrophe:
  assumes "ds \<noteq> [51, 57]" "\<And>x. x \<in> set ds \<Longrightarrow> x \<noteq> 59"
  shows "\<not> starts_with [51, 57, 59] (ds @ [59])"
proof (cases ds)
  case Nil
  then show ?thesis by simp
next
  case a: (Cons a ds1)
  show ?thesis
  proof (cases ds1)
    case Nil
    then show ?thesis by (simp add: a)
  next
    case b: (Cons b ds2)
    show ?thesis using assms by (cases ds2) (auto simp: a b)
  qed
qed

lemma fromCharCode_single: "\<exists>u. fromCharCode x = [u]"
  by (cases x) (simp_all add: fromCharCode_def)

lemma hex_single: "replace_cb re_hex g [u] = [u]"
  by (simp add: replace_cb_def re_hex_def match_seq_lit str_def)

lemma decode_decimal:
  assumes "ds \<noteq> []" "\<And>x. x \<in> set ds \<Longrightarrow> is_digit x"
  shows "decodeHtmlEntities (str ''&#'' @ ds @ str '';'') = fromCharCode (to_number (digits_value 10 ds))"
proof (cases "ds = [51, 57]")
  case True
  then show ?thesis by (simp add: eval_defs)
next
  case False
  have d: "x \<noteq> 59 \<and> x \<noteq> 38" if "x \<in> set ds" for x
    using digit_units [OF assms(2) [OF that]] by simp
  have apos: "\<not> starts_with [51, 57, 59] (ds @ [59])"
    using not_apostrophe [OF False] d by blast
  have amp: "38 \<notin> set ds" using d by blast
  have m: "match re_decimal (38 # 35 # ds @ [59]) = [([(1, ds)], [])]"
    using assms by (rule decimal_match)
  have p: "parseInt ds 10 = to_number (digits_value 10 ds)"
    by (rule parseInt_digits) (use assms digit_units in auto)
  obtain u where u: "fromCharCode (to_number (digits_value 10 ds)) = [u]"
    using fromCharCode_single by blast
  show ?thesis
    unfolding decodeHtmlEntities_def Let_def entities_def foldl.simps prod.case
    using apos amp
    by (simp add: str_def split_head_miss replace_cb_def [of re_decimal] m
        needs_other(4) [THEN needs_nil] param_def capture_def p u hex_single)
qed

lemma decode_hex:
  assumes "ds \<noteq> []" "\<And>x. x \<in> set ds \<Longrightarrow> is_hex_digit x"
  shows "decodeHtmlEntities (str ''&#x'' @ ds @ str '';'') = fromCharCode (to_number (digits_value 16 ds))"
proof -
  have d: "x \<noteq> 59 \<and> x \<noteq> 38" if "x \<in> set ds" for x
    using hex_units [OF assms(2) [OF that]] by simp
  have amp: "38 \<notin> set ds" using d by blast
  have m: "match re_hex (38 # 35 # 120 # ds @ [59]) = [([(1, ds)], [])]"
    using assms by (rule hex_match)
  have m0: "match re_decimal (38 # 35 # 120 # ds @ [59]) = []"
    by (simp add: re_decimal_def match_seq_lit match_seq_grp_rep1 str_def is_digit_def)
  have p: "parseInt ds 16 = to_number (digits_value 16 ds)"
    by (rule parseInt_digits) (use assms hex_units in auto)
  show ?thesis
    unfolding decodeHtmlEntities_def Let_def entities_def foldl.simps prod.case
    using amp
    by (simp add: str_def split_head_miss replace_cb_def m m0
        needs_other(4) [THEN needs_nil] needs_other(4) [THEN needs_miss]
        needs_other(4) [THEN scan_quiet]
        needs_other(5) [THEN needs_nil] param_def capture_def p)
qed

lemma to_number_small: "n < 2 ^ 53 \<Longrightarrow> fromCharCode (to_number n) = [n mod 65536]"
  by (simp add: to_number_def fromCharCode_def)

subsection \<open>The first match through a repetition\<close>

lemma star_first:
  "match k (dropWhile C s) = m # ms \<Longrightarrow> \<exists>ms'. match (Seq (Star C) k) s = m # ms'"
  by (induction s) (auto simp: match_exec)

lemma star_prefix_first:
  assumes "\<And>x. x \<in> set b \<Longrightarrow> C x" "match (Seq (Star C) k) y = m # ms"
  shows "\<exists>ms'. match (Seq (Star C) k) (b @ y) = m # ms'"
  using assms by (induction b) (auto simp: match_exec)

lemma star_all_fail:
  assumes "\<And>x. x \<in> set z \<Longrightarrow> C x"
    and "\<And>j. j \<le> length z \<Longrightarrow> match k (drop j z @ r) = []"
  shows "match (Seq (Star C) k) (z @ r) = match (Seq (Star C) k) r"
  using assms
proof (induction z)
  case Nil
  show ?case by simp
next
  case (Cons x z)
  have "match k (drop j z @ r) = []" if "j \<le> length z" for j
    using Cons.prems(2) [of "Suc j"] that by simp
  then have "match (Seq (Star C) k) (z @ r) = match (Seq (Star C) k) r"
    using Cons.prems(1) by (intro Cons.IH) auto
  moreover have "match k (x # z @ r) = []" using Cons.prems(2) [of 0] by simp
  ultimately show ?case using Cons.prems(1) [of x] by (simp add: match_exec)
qed

lemma star_last:
  assumes "\<And>x. x \<in> set z \<Longrightarrow> C x" "\<not> C y"
    and "\<And>j. 0 < j \<Longrightarrow> j \<le> length z \<Longrightarrow> match k (drop j z @ y # r) = []"
  shows "match (Seq (Star C) k) (z @ y # r) = match k (z @ y # r)"
proof (cases z)
  case Nil
  then show ?thesis using assms(2) by (simp add: match_exec)
next
  case (Cons x z')
  have tail: "match (Seq (Star C) k) (z' @ y # r) = match (Seq (Star C) k) (y # r)"
  proof (rule star_all_fail)
    fix x assume "x \<in> set z'"
    then show "C x" using assms(1) by (simp add: Cons)
  next
    fix j assume "j \<le> length z'"
    then show "match k (drop j z' @ y # r) = []" using assms(3) [of "Suc j"] by (simp add: Cons)
  qed
  have "match k (y # r) = []" using assms(3) [of "length z"] by (simp add: Cons)
  then have "match (Seq (Star C) k) (y # r) = []" using assms(2) by (simp add: match_exec)
  then show ?thesis using assms(1) [of x] tail by (simp add: Cons match_exec)
qed

subsection \<open>The anchor pattern\<close>

lemma starts_with_before:
  "starts_with q (u @ y # v) \<Longrightarrow> y \<notin> set q \<Longrightarrow> starts_with q u"
  by (induction q u rule: starts_with.induct) auto

lemma starts_with_drop_contains: "starts_with q (map f (drop i s)) \<Longrightarrow> contains q (map f s)"
proof -
  assume "starts_with q (map f (drop i s))"
  then obtain v where "map f (drop i s) = q @ v" by (auto simp: starts_with_iff)
  then have "map f s = map f (take i s) @ q @ v"
    by (metis append_take_drop_id map_append)
  then show ?thesis unfolding contains_iff by blast
qed

lemma dropWhile_append_head:
  "y \<noteq> [] \<Longrightarrow> \<not> P (hd y) \<Longrightarrow> dropWhile P (a @ y) = dropWhile P a @ y"
  by (induction a) (auto simp: dropWhile_eq_self_iff)

lemma canonicalize_eq [simp]: "canonicalize x = 61 \<longleftrightarrow> x = 61"
  by (auto simp: canonicalize_def)

lemma starts_with_append:
  "starts_with (p @ q) s \<longleftrightarrow> starts_with p s \<and> starts_with q (drop (length p) s)"
  by (induction p s rule: starts_with.induct) auto

lemma href_needed:
  assumes "\<not> starts_with_i (str ''href='' @ [DQUOTE]) s"
  shows "match (Seq (lit_i ''href='') (Seq (sym_i DQUOTE) k)) s = []"
proof (cases "starts_with_i (str ''href='') s")
  case False
  then show ?thesis by (simp add: match_seq_lit_i)
next
  case True
  then have "\<not> starts_with [DQUOTE] (map canonicalize (drop (length ''href='') s))"
    using assms starts_with_append [of "[72, 82, 69, 70, 61]" "[34]" "map canonicalize s"]
    by (simp add: starts_with_i_def str_def DQUOTE_def drop_map)
  then have "match (Seq (sym_i DQUOTE) k) (drop (length ''href='') s) = []"
    by (cases "drop (length ''href='') s") (simp_all add: sym_i_def match_exec DQUOTE_def)
  then show ?thesis using True by (simp add: match_seq_lit_i)
qed

lemma anchor_match:
  assumes op: "map canonicalize op = str ''<A''" and w: "is_space w"
    and a1: "62 \<notin> set a1"
    and hr: "map canonicalize hr = str ''HREF=''"
    and url: "DQUOTE \<notin> set url" "62 \<notin> set url"
    and a2: "62 \<notin> set a2"
    and later: "\<not> contains_i (str ''href='' @ [DQUOTE]) (url @ [DQUOTE] @ a2)"
    and label: "60 \<notin> set label"
    and cl: "map canonicalize cl = str ''</A>''"
  shows "\<exists>ms. match re_a (op @ [w] @ a1 @ hr @ [DQUOTE] @ url @ [DQUOTE] @ a2 @ str ''>''
            @ label @ cl @ post) = ([(1, url), (2, label)], post) # ms"
proof -
  let ?L = "lit_i ''</a>''"
  let ?K6 = "Seq (Grp 2 (LazyStar any_unit)) ?L"
  let ?K5 = "Seq (Star not_gt) (Seq (lit_i ''>'') ?K6)"
  let ?K4 = "Seq (Grp 1 (Star not_dquote)) (Seq (sym_i DQUOTE) ?K5)"
  let ?K3 = "Seq (lit_i ''href='') (Seq (sym_i DQUOTE) ?K4)"
  let ?K2 = "Seq (Star not_gt) ?K3"
  let ?r = "label @ cl @ post"
  let ?u = "url @ DQUOTE # a2"
  let ?z = "hr @ DQUOTE # ?u"
  obtain oa where opc: "op = [60, oa]" "canonicalize oa = 65"
    using op by (auto simp: str_def)
  obtain h1 h2 h3 h4 where hrc: "hr = [h1, h2, h3, h4, 61]" "canonicalize h1 = 72"
    "canonicalize h2 = 82" "canonicalize h3 = 69" "canonicalize h4 = 70"
    using hr by (auto simp: str_def)
  obtain ca where clc: "cl = [60, 47, ca, 62]" "canonicalize ca = 65"
    using cl by (auto simp: str_def)
  have hne: "h1 \<noteq> 62" "h2 \<noteq> 62" "h3 \<noteq> 62" "h4 \<noteq> 62" "\<not> is_space h1"
    using hrc letter_not_space [of h1] letter_not_space [of h2] letter_not_space [of h3]
      letter_not_space [of h4] by auto
  \<comment> \<open>the label, read lazily up to the closing tag\<close>
  have "grp_lazy 2 any_unit ?L [] (label @ cl @ post) = grp_lazy 2 any_unit ?L ([] @ label) (cl @ post)"
    by (rule grp_lazy_skip) (use label in \<open>auto simp: match_lit_i starts_with_i_def str_def any_unit_def\<close>)
  then have "\<exists>ms. match ?K6 ?r = ([(2, label)], post) # ms"
    by (simp add: match_seq_grp_lazy grp_lazy_Cons clc match_lit_i starts_with_i_def str_def)
  then obtain ms6 where m6: "match ?K6 ?r = ([(2, label)], post) # ms6" by blast
  \<comment> \<open>the attributes after the URL\<close>
  have "match ?K5 (a2 @ 62 # ?r) = match ?K5 (62 # ?r)"
    by (rule star_skip) (use a2 in \<open>auto simp: not_gt_def match_seq_lit_i starts_with_i_def str_def\<close>)
  then have m5: "match ?K5 (a2 @ 62 # ?r) = match ?K6 ?r"
    by (simp add: match_exec not_gt_def match_seq_lit_i starts_with_i_def str_def)
  \<comment> \<open>the URL up to the closing quote\<close>
  have "grp_star 1 not_dquote (Seq (sym_i DQUOTE) ?K5) [] (url @ DQUOTE # a2 @ 62 # ?r) =
        grp_star 1 not_dquote (Seq (sym_i DQUOTE) ?K5) ([] @ url) (DQUOTE # a2 @ 62 # ?r)"
    by (rule grp_star_skip) (use url in \<open>auto simp: not_dquote_def sym_i_def match_exec DQUOTE_def\<close>)
  then have m4: "match ?K4 (url @ DQUOTE # a2 @ 62 # ?r) =
      map (\<lambda>(c2, r2). ((1, url) # c2, r2)) (match ?K6 ?r)"
    by (simp add: match_seq_grp_star grp_star_Cons not_dquote_def sym_i_def match_exec m5)
  have m3: "match ?K3 (?z @ 62 # ?r) = ([(1, url), (2, label)], post) # map (\<lambda>(c2, r2). ((1, url) # c2, r2)) ms6"
    using m4 by (simp add: hrc match_seq_lit_i starts_with_i_def str_def sym_i_def match_exec
        DQUOTE_def m6)
  \<comment> \<open>no later position in the tag starts another href\<close>
  have none: "match ?K3 (drop j ?z @ 62 # ?r) = []" if j: "0 < j" "j \<le> length ?z" for j
  proof (rule href_needed, rule notI)
    assume "starts_with_i (str ''href='' @ [DQUOTE]) (drop j ?z @ 62 # ?r)"
    then have "starts_with (map canonicalize (str ''href='' @ [DQUOTE]))
        (map canonicalize (drop j ?z) @ 62 # map canonicalize ?r)"
      by (simp add: starts_with_i_def)
    then have "starts_with (map canonicalize (str ''href='' @ [DQUOTE])) (map canonicalize (drop j ?z))"
      by (rule starts_with_before) (simp add: str_def DQUOTE_def)
    moreover obtain i where "j = Suc i" using j(1) by (cases j) auto
    ultimately have "starts_with (map canonicalize (str ''href='' @ [DQUOTE]))
        (map canonicalize (drop i (h2 # h3 # h4 # 61 # DQUOTE # ?u)))"
      by (simp add: hrc)
    then have "contains (map canonicalize (str ''href='' @ [DQUOTE]))
        (map canonicalize (h2 # h3 # h4 # 61 # DQUOTE # ?u))"
      by (rule starts_with_drop_contains)
    then have "contains_i (str ''href='' @ [DQUOTE]) ?u"
      using hrc by (simp add: contains_i_def str_def DQUOTE_def)
    then show False using later by simp
  qed
  have m2: "match ?K2 (?z @ 62 # ?r) = match ?K3 (?z @ 62 # ?r)"
  proof (rule star_last)
    fix x assume "x \<in> set ?z"
    then show "not_gt x" using url a2 hne by (auto simp: hrc not_gt_def DQUOTE_def)
  next
    show "\<not> not_gt 62" by (simp add: not_gt_def)
  next
    fix j assume "0 < j" "j \<le> length ?z"
    then show "match ?K3 (drop j ?z @ 62 # ?r) = []" by (rule none)
  qed
  \<comment> \<open>the attributes before href\<close>
  define b where "b = dropWhile is_space a1"
  have "\<exists>ms. match ?K2 (b @ ?z @ 62 # ?r) = ([(1, url), (2, label)], post) # ms"
  proof (rule star_prefix_first)
    fix x assume "x \<in> set b"
    then show "not_gt x" using a1 set_dropWhileD [of x is_space a1] by (auto simp: b_def not_gt_def)
  next
    show "match ?K2 (?z @ 62 # ?r) = ([(1, url), (2, label)], post) # map (\<lambda>(c2, r2). ((1, url) # c2, r2)) ms6"
      using m2 m3 by simp
  qed
  then obtain msb where mb: "match ?K2 (b @ ?z @ 62 # ?r) = ([(1, url), (2, label)], post) # msb"
    by blast
  have "dropWhile is_space (a1 @ ?z @ 62 # ?r) = b @ ?z @ 62 # ?r"
    unfolding b_def by (rule dropWhile_append_head) (use hne in \<open>simp_all add: hrc\<close>)
  then have "\<exists>ms. match (Seq (Star is_space) ?K2) (a1 @ ?z @ 62 # ?r) = ([(1, url), (2, label)], post) # ms"
    using star_first [of ?K2 is_space "a1 @ ?z @ 62 # ?r"] mb by simp
  then show ?thesis
    using w by (simp add: re_a_def rep1_def match_seq_lit_i starts_with_i_def str_def opc match_exec)
qed

subsection \<open>Code units that no letter case changes\<close>

lemma canonicalize_zero [simp]: "canonicalize 0 = 0"
  by (simp add: canonicalize_def)

lemma needs_miss_i: "needs 60 re \<Longrightarrow> canonicalize c \<noteq> 60 \<Longrightarrow> match re (c # cs) = []"
  by (simp add: needs_def)

subsection \<open>How much a match reads\<close>

lemma star_greedy_rest: "r \<in> set (star_greedy C s) \<Longrightarrow> \<exists>u. s = u @ r"
proof (induction s)
  case Nil
  then show ?case by simp
next
  case (Cons c cs)
  then consider "C c" "r \<in> set (star_greedy C cs)" | "r = c # cs" by (auto split: if_splits)
  then show ?case
  proof cases
    case 1
    then obtain u where "cs = u @ r" using Cons.IH by blast
    then have "c # cs = (c # u) @ r" by simp
    then show ?thesis by blast
  next
    case 2
    then show ?thesis by simp
  qed
qed

lemma star_lazy_rest: "r \<in> set (star_lazy C s) \<Longrightarrow> \<exists>u. s = u @ r"
proof (induction s)
  case Nil
  then show ?case by simp
next
  case (Cons c cs)
  then consider "C c" "r \<in> set (star_lazy C cs)" | "r = c # cs" by (auto split: if_splits)
  then show ?case
  proof cases
    case 1
    then obtain u where "cs = u @ r" using Cons.IH by blast
    then have "c # cs = (c # u) @ r" by simp
    then show ?thesis by blast
  next
    case 2
    then show ?thesis by simp
  qed
qed

lemma match_seqE:
  assumes "(caps, r) \<in> set (match (Seq a b) s)"
  obtains c1 r1 c2 where "(c1, r1) \<in> set (match a s)" "(c2, r) \<in> set (match b r1)" "caps = c1 @ c2"
  using assms by (auto simp: match.simps(3))

lemma match_rest: "(caps, r) \<in> set (match re s) \<Longrightarrow> \<exists>u. s = u @ r"
proof (induction re arbitrary: caps r s)
  case Eps
  then show ?case by simp
next
  case (Atom C)
  then show ?case by (cases s) (auto split: if_splits)
next
  case (Seq a b)
  from Seq.prems obtain c1 r1 c2 where
    a: "(c1, r1) \<in> set (match a s)" and b: "(c2, r) \<in> set (match b r1)"
    by (rule match_seqE)
  obtain u where u: "s = u @ r1" using Seq.IH(1) [OF a] by blast
  obtain v where v: "r1 = v @ r" using Seq.IH(2) [OF b] by blast
  have "s = (u @ v) @ r" by (simp add: u v)
  then show ?case by blast
next
  case (Alt a b)
  then show ?case by auto
next
  case (Star C)
  then show ?case using star_greedy_rest [of r C s] by auto
next
  case (LazyStar C)
  then show ?case using star_lazy_rest [of r C s] by auto
next
  case (Grp n a)
  then show ?case by auto
qed

lemma match_shorter: "(caps, r) \<in> set (match re s) \<Longrightarrow> length r \<le> length s"
  using match_rest [of caps r re s] by auto

lemma group_free_caps: "group_free re \<Longrightarrow> (caps, r) \<in> set (match re s) \<Longrightarrow> caps = []"
proof (induction re arbitrary: caps r s)
  case (Atom C)
  then show ?case by (cases s) (auto split: if_splits)
next
  case (Seq a b)
  from Seq.prems(2) obtain c1 r1 c2 where
    a: "(c1, r1) \<in> set (match a s)" and b: "(c2, r) \<in> set (match b r1)" and c: "caps = c1 @ c2"
    by (rule match_seqE)
  show ?case using Seq.IH(1) [OF _ a] Seq.IH(2) [OF _ b] Seq.prems(1) c by simp
next
  case (Alt a b)
  then show ?case by auto
qed auto

lemma captured_simps [simp]:
  "captured [] = 0" "captured ((n, v) # caps) = length v + captured caps"
  "captured (c1 @ c2) = captured c1 + captured c2"
  by (simp_all add: captured_def)

lemma match_weight:
  "flat re \<Longrightarrow> (caps, r) \<in> set (match re s) \<Longrightarrow> length r + fixed re + captured caps \<le> length s"
proof (induction re arbitrary: caps r s)
  case Eps
  then show ?case by simp
next
  case (Atom C)
  then show ?case by (cases s) (auto split: if_splits)
next
  case (Seq a b)
  from Seq.prems(2) obtain c1 r1 c2 where
    a: "(c1, r1) \<in> set (match a s)" and b: "(c2, r) \<in> set (match b r1)" and c: "caps = c1 @ c2"
    by (rule match_seqE)
  have "length r1 + fixed a + captured c1 \<le> length s" using Seq.IH(1) [OF _ a] Seq.prems(1) by simp
  moreover have "length r + fixed b + captured c2 \<le> length r1"
    using Seq.IH(2) [OF _ b] Seq.prems(1) by simp
  ultimately show ?case by (simp add: c)
next
  case (Alt a b)
  from Alt.prems(2) consider "(caps, r) \<in> set (match a s)" | "(caps, r) \<in> set (match b s)" by auto
  then show ?case
  proof cases
    case 1
    then have "length r + fixed a + captured caps \<le> length s" using Alt.IH(1) Alt.prems(1) by simp
    then show ?thesis by simp
  next
    case 2
    then have "length r + fixed b + captured caps \<le> length s" using Alt.IH(2) Alt.prems(1) by simp
    then show ?thesis by simp
  qed
next
  case (Star C)
  then show ?case using match_shorter [OF Star.prems(2)] by auto
next
  case (LazyStar C)
  then show ?case using match_shorter [OF LazyStar.prems(2)] by auto
next
  case (Grp n a)
  from Grp.prems(2) obtain c where c: "(c, r) \<in> set (match a s)"
    and caps: "caps = (n, take (length s - length r) s) # c" by auto
  have "c = []" using group_free_caps [OF _ c] Grp.prems(1) by simp
  moreover have "length r \<le> length s" using c by (rule match_shorter)
  ultimately show ?case by (simp add: caps)
qed

lemma capture_le: "length (case capture caps n of None \<Rightarrow> [] | Some v \<Rightarrow> v) \<le> captured caps"
  by (induction caps) (auto simp: capture_def)

lemma capture_two_le:
  "n \<noteq> m \<Longrightarrow>
   length (case capture caps n of None \<Rightarrow> [] | Some v \<Rightarrow> v)
     + length (case capture caps m of None \<Rightarrow> [] | Some v \<Rightarrow> v) \<le> captured caps"
proof (induction caps)
  case Nil
  then show ?case by (simp add: capture_def)
next
  case (Cons p caps)
  obtain k v where p: "p = (k, v)" by (cases p)
  show ?case
    using Cons capture_le [of caps n] capture_le [of caps m]
    by (auto simp: p capture_def)
qed

lemma scan_weight:
  assumes "a \<le> b"
    and "\<And>s caps r. (caps, r) \<in> set (match re s) \<Longrightarrow> a * length (f caps) + b * length r \<le> b * length s"
  shows "a * length (substitute f (scan re s)) \<le> b * length s"
  using assms(2)
proof (induction re s rule: scan.induct)
  case (1 re)
  show ?case
  proof (cases "match re []")
    case Nil
    then show ?thesis by simp
  next
    case (Cons m ms)
    obtain caps r where m: "m = (caps, r)" by (cases m)
    have "(caps, r) \<in> set (match re [])" by (simp add: Cons m)
    then have "a * length (f caps) + b * length r \<le> b * length ([] :: jsstring)" by (rule 1)
    then show ?thesis by (simp add: Cons m)
  qed
next
  case (2 re c cs)
  note w0 = 2(4)
  show ?case
  proof (cases "match re (c # cs)")
    case Nil
    then have "a * length (substitute f (scan re cs)) \<le> b * length cs" using 2(1) w0 by simp
    then show ?thesis using Nil assms(1) by (simp add: algebra_simps)
  next
    case (Cons m ms)
    obtain caps r where m: "m = (caps, r)" by (cases m)
    have "(caps, r) \<in> set (match re (c # cs))" by (simp add: Cons m)
    then have w: "a * length (f caps) + b * length r \<le> b * length (c # cs)" by (rule w0)
    show ?thesis
    proof (cases "length r < length (c # cs)")
      case True
      then have "a * length (substitute f (scan re r)) \<le> b * length r"
        using 2(2) [OF Cons m [symmetric]] w0 by simp
      then show ?thesis using w True by (simp add: Cons m algebra_simps)
    next
      case False
      then have ih: "a * length (substitute f (scan re cs)) \<le> b * length cs"
        using 2(3) [OF Cons m [symmetric]] w0 by simp
      have "length (c # cs) \<le> length r" using False by simp
      then have "b * length (c # cs) \<le> b * length r" by (rule mult_le_mono2)
      then have z: "a * length (f caps) = 0" using w by linarith
      have "a * length (substitute f (scan re (c # cs)))
          = a * length (f caps) + a + a * length (substitute f (scan re cs))"
        using False by (simp add: Cons m algebra_simps)
      moreover have "b * length (c # cs) = b + b * length cs" by simp
      ultimately show ?thesis using z ih assms(1) by linarith
    qed
  qed
qed

subsection \<open>Steps that cannot be refused\<close>

lemma new_string_shorter: "length text \<le> length subject \<Longrightarrow> new_string subject text = Inr text"
  by (simp add: new_string_def)

lemma new_string_same [simp]: "new_string s s = Inr s"
  by (simp add: new_string_def)

lemma new_string_of_string:
  "length subject \<le> max_string_length \<Longrightarrow>
   new_string subject text = (if length text \<le> max_string_length then Inr text else Inl RangeError)"
  by (auto simp: new_string_def)

lemma and_then_simps [simp]: "and_then (Inr v) f = f v" "and_then (Inl e) f = Inl e"
  by (simp_all add: and_then_def)

lemma replaced_not_longer:
  assumes "flat re" and "\<And>caps. length (expand tpl caps) \<le> fixed re + captured caps"
  shows "length (replaced re tpl s) \<le> length s"
proof -
  have "1 * length (substitute (expand tpl) (scan re s)) \<le> 1 * length s"
  proof (rule scan_weight)
    fix s caps r
    assume m: "(caps, r) \<in> set (match re s)"
    show "1 * length (expand tpl caps) + 1 * length r \<le> 1 * length s"
      using match_weight [OF assms(1) m] assms(2) [of caps] by simp
  qed simp
  then show ?thesis by (simp add: replaced_def)
qed

lemma replace_str_const:
  "flat re \<Longrightarrow> length t \<le> fixed re \<Longrightarrow> replace_str re [Lit t] s = Inr (replaced re [Lit t] s)"
  using replaced_not_longer [of re "[Lit t]" s] by (simp add: replace_str_def new_string_shorter)

lemma flat_inline:
  "flat re_br" "flat re_p_between" "flat re_p_open" "flat re_p_close" "flat re_a"
  "flat re_bold" "flat re_italic" "flat re_strike" "flat re_li" "flat re_list"
  "flat re_heading" "flat re_tag" "flat re_link_start" "flat re_link_end" "flat re_newlines"
  "flat re_decimal" "flat re_hex"
  by (simp_all add: regex_defs str_def)

lemma fixed_inline:
  "fixed re_br = 4" "fixed re_p_between = 7" "fixed re_p_open = 3" "fixed re_p_close = 4"
  "fixed re_a = 15" "fixed re_bold = 3" "fixed re_italic = 3" "fixed re_strike = 3"
  "fixed re_li = 9" "fixed re_list = 4" "fixed re_heading = 9" "fixed re_tag = 3"
  "fixed re_link_start = 11" "fixed re_link_end = 9" "fixed re_newlines = 3"
  "fixed re_decimal = 3" "fixed re_hex = 4"
  by (simp_all add: regex_defs str_def)

lemma step_ok:
  "replace_str re_br [Lit [LF]] s = Inr (replaced re_br [Lit [LF]] s)"
  "replace_str re_p_between [Lit [LF, LF]] s = Inr (replaced re_p_between [Lit [LF, LF]] s)"
  "replace_str re_p_open [Lit []] s = Inr (replaced re_p_open [Lit []] s)"
  "replace_str re_p_close [Lit [LF, LF]] s = Inr (replaced re_p_close [Lit [LF, LF]] s)"
  "replace_str re_bold [Lit (str ''*'')] s = Inr (replaced re_bold [Lit (str ''*'')] s)"
  "replace_str re_italic [Lit (str ''_'')] s = Inr (replaced re_italic [Lit (str ''_'')] s)"
  "replace_str re_strike [Lit (str ''~'')] s = Inr (replaced re_strike [Lit (str ''~'')] s)"
  "replace_str re_list [Lit [LF]] s = Inr (replaced re_list [Lit [LF]] s)"
  "replace_str re_tag [Lit []] s = Inr (replaced re_tag [Lit []] s)"
  "replace_str re_link_start [Lit (str ''<'')] s = Inr (replaced re_link_start [Lit (str ''<'')] s)"
  "replace_str re_link_end [Lit (str ''>'')] s = Inr (replaced re_link_end [Lit (str ''>'')] s)"
  "replace_str re_newlines [Lit [LF, LF]] s = Inr (replaced re_newlines [Lit [LF, LF]] s)"
  by (rule replace_str_const, simp add: flat_inline, simp add: fixed_inline str_def)+

lemma trim_not_longer: "length (trim s) \<le> length s"
proof -
  have "length (dropWhile is_space (rev (dropWhile is_space s))) \<le> length (rev (dropWhile is_space s))"
    by (rule length_dropWhile_le)
  also have "\<dots> \<le> length s" using length_dropWhile_le [of is_space s] by simp
  finally show ?thesis by (simp add: trim_def)
qed

lemma substitute_fn_weight:
  assumes "\<And>s caps r v. (caps, r) \<in> set (match re s) \<Longrightarrow> f caps = Inr v \<Longrightarrow>
      length v + length r \<le> length s"
  shows "substitute_fn f (scan re s) = Inr t \<Longrightarrow> length t \<le> length s"
  using assms
proof (induction re s arbitrary: t rule: scan.induct)
  case (1 re)
  show ?case
  proof (cases "match re []")
    case Nil
    then show ?thesis using 1(1) by simp
  next
    case (Cons m ms)
    obtain caps r where m: "m = (caps, r)" by (cases m)
    have in_m: "(caps, r) \<in> set (match re [])" by (simp add: Cons m)
    from 1(1) obtain v where v: "f caps = Inr v" "t = v"
      by (auto simp: Cons m split: sum.splits)
    have "length v + length r \<le> length ([] :: jsstring)" using 1(2) [OF in_m v(1)] .
    then show ?thesis by (simp add: v)
  qed
next
  case (2 re c cs)
  note out = 2(4) and w0 = 2(5)
  show ?case
  proof (cases "match re (c # cs)")
    case Nil
    then obtain u where u: "substitute_fn f (scan re cs) = Inr u" "t = c # u"
      using out by (auto split: sum.splits)
    have "length u \<le> length cs" using 2(1) [OF Nil u(1)] w0 by simp
    then show ?thesis by (simp add: u)
  next
    case (Cons m ms)
    obtain caps r where m: "m = (caps, r)" by (cases m)
    have "(caps, r) \<in> set (match re (c # cs))" by (simp add: Cons m)
    note w = w0 [OF this]
    show ?thesis
    proof (cases "length r < length (c # cs)")
      case True
      then obtain v u where vu: "f caps = Inr v" "substitute_fn f (scan re r) = Inr u" "t = v @ u"
        using out by (auto simp: Cons m split: sum.splits)
      have "length u \<le> length r" using 2(2) [OF Cons m [symmetric] _ vu(2)] True w0 by simp
      then show ?thesis using w [OF vu(1)] by (simp add: vu)
    next
      case False
      then obtain v u where vu: "f caps = Inr v" "substitute_fn f (scan re cs) = Inr u" "t = v @ c # u"
        using out by (auto simp: Cons m split: sum.splits)
      have "length u \<le> length cs" using 2(3) [OF Cons m [symmetric] _ vu(2)] False w0 by simp
      then show ?thesis using w [OF vu(1)] False by (simp add: vu)
    qed
  qed
qed

lemma callback_fits:
  assumes "flat re"
    and "\<And>caps v. f caps = Inr v \<Longrightarrow>
      length v \<le> fixed re + length (case capture caps 1 of None \<Rightarrow> [] | Some c \<Rightarrow> c)"
  shows "replace_fn re f s = replaced_fn re f s"
proof (cases "replaced_fn re f s")
  case (Inl e)
  then show ?thesis by (simp add: replace_fn_def)
next
  case (Inr t)
  have "length t \<le> length s"
  proof (rule substitute_fn_weight [of re f s t])
    fix s caps r v
    assume m: "(caps, r) \<in> set (match re s)" and v: "f caps = Inr v"
    show "length v + length r \<le> length s"
      using match_weight [OF assms(1) m] assms(2) [OF v] capture_le [of caps 1] by simp
  next
    show "substitute_fn f (scan re s) = Inr t" using Inr by (simp add: replaced_fn_def)
  qed
  then show ?thesis by (simp add: replace_fn_def Inr new_string_shorter)
qed

lemma callback_ok:
  "replace_fn re_li li_callback s = replaced_fn re_li li_callback s"
  "replace_fn re_heading heading_callback s = replaced_fn re_heading heading_callback s"
proof -
  show "replace_fn re_li li_callback s = replaced_fn re_li li_callback s"
  proof (rule callback_fits)
    fix caps v
    assume "li_callback caps = Inr v"
    then show "length v \<le> fixed re_li + length (case capture caps 1 of None \<Rightarrow> [] | Some c \<Rightarrow> c)"
      using trim_not_longer [of "the (capture caps 1)"]
      by (auto simp: li_callback_def fixed_inline split: option.splits)
  qed (simp add: flat_inline)
  show "replace_fn re_heading heading_callback s = replaced_fn re_heading heading_callback s"
  proof (rule callback_fits)
    fix caps v
    assume "heading_callback caps = Inr v"
    then show "length v \<le> fixed re_heading + length (case capture caps 1 of None \<Rightarrow> [] | Some c \<Rightarrow> c)"
      using trim_not_longer [of "the (capture caps 1)"]
      by (auto simp: heading_callback_def str_def fixed_inline split: option.splits)
  qed (simp add: flat_inline)
qed

section \<open>The converter and its texts\<close>

lemma stage_inline_split:
  "stage_inline s =
     replaced re_strike [Lit (str ''~'')] (replaced re_italic [Lit (str ''_'')]
       (replaced re_bold [Lit (str ''*'')] (stage_anchor s)))"
  by (simp add: stage_inline_def stage_anchor_def stage_paragraphs_def Let_def)

lemma anchor_step:
  "replace_str re_a link_template (stage_paragraphs s) =
     (if anchor_fits s then Inr (stage_anchor s) else Inl RangeError)"
  by (simp add: replace_str_def new_string_def anchor_fits_def stage_anchor_def)

lemma anchor_step_unfolded:
  "replace_str re_a link_template
     (replaced re_p_close [Lit [LF, LF]] (replaced re_p_open [Lit []]
       (replaced re_p_between [Lit [LF, LF]] (replaced re_br [Lit [LF]] s)))) =
     (if anchor_fits s then Inr (stage_anchor s) else Inl RangeError)"
  using anchor_step [of s] by (simp add: stage_paragraphs_def Let_def)

lemma convert_bridge:
  "htmlToMrkdwn html = (if html = [] \<or> anchor_fits html then converted html else Inl RangeError)"
proof (cases "html = []")
  case True
  then show ?thesis by (simp add: htmlToMrkdwn_def converted_def)
next
  case False
  show ?thesis
  proof (cases "anchor_fits html")
    case fits: True
    have "htmlToMrkdwn html = converted html"
      using False fits
      by (simp add: htmlToMrkdwn_def anchor_step_unfolded step_ok callback_ok
          converted_def stage_inline_split stage_finish_def Let_def and_then_def
          split: sum.splits)
    then show ?thesis using fits by simp
  next
    case nofit: False
    then show ?thesis using False by (simp add: htmlToMrkdwn_def anchor_step_unfolded step_ok)
  qed
qed

lemma stage_paragraphs_not_longer: "length (stage_paragraphs s) \<le> length s"
proof -
  have 1: "length (replaced re_br [Lit [LF]] t) \<le> length t" for t
    by (rule replaced_not_longer) (simp_all add: flat_inline fixed_inline)
  have 2: "length (replaced re_p_between [Lit [LF, LF]] t) \<le> length t" for t
    by (rule replaced_not_longer) (simp_all add: flat_inline fixed_inline)
  have 3: "length (replaced re_p_open [Lit []] t) \<le> length t" for t
    by (rule replaced_not_longer) (simp_all add: flat_inline fixed_inline)
  have 4: "length (replaced re_p_close [Lit [LF, LF]] t) \<le> length t" for t
    by (rule replaced_not_longer) (simp_all add: flat_inline fixed_inline)
  show ?thesis
    unfolding stage_paragraphs_def Let_def
    using 1 [of s] 2 [of "replaced re_br [Lit [LF]] s"]
      3 [of "replaced re_p_between [Lit [LF, LF]] (replaced re_br [Lit [LF]] s)"]
      4 [of "replaced re_p_open [Lit []] (replaced re_p_between [Lit [LF, LF]] (replaced re_br [Lit [LF]] s))"]
    by linarith
qed

lemma link_template_length:
  "length (expand link_template caps) \<le> 21 + captured caps"
  using capture_two_le [of 1 2 caps] by (simp add: link_template_def str_def)

lemma anchor_growth: "5 * length (replaced re_a link_template t) \<le> 7 * length t"
proof -
  have "5 * length (substitute (expand link_template) (scan re_a t)) \<le> 7 * length t"
  proof (rule scan_weight)
    fix s caps r
    assume m: "(caps, r) \<in> set (match re_a s)"
    show "5 * length (expand link_template caps) + 7 * length r \<le> 7 * length s"
      using match_weight [OF flat_inline(5) m] link_template_length [of caps]
      by (simp add: fixed_inline)
  qed simp
  then show ?thesis by (simp add: replaced_def)
qed

lemma anchor_fits_small: "7 * length s \<le> 5 * max_string_length \<Longrightarrow> anchor_fits s"
  using anchor_growth [of "stage_paragraphs s"] stage_paragraphs_not_longer [of s]
  by (simp add: anchor_fits_def stage_anchor_def)

lemma anchor_fits_quiet: "stage_anchor s = stage_paragraphs s \<Longrightarrow> anchor_fits s"
  by (simp add: anchor_fits_def)

lemma stage_paragraphs_quiet: "60 \<notin> set s \<Longrightarrow> stage_paragraphs s = s"
  by (simp add: stage_paragraphs_def Let_def quiet_lt)

lemma stage_anchor_quiet: "60 \<notin> set (stage_paragraphs s) \<Longrightarrow> stage_anchor s = stage_paragraphs s"
  by (simp add: stage_anchor_def quiet_lt)

lemma stage_inline_after_paragraphs:
  "60 \<notin> set (stage_paragraphs s) \<Longrightarrow> stage_inline s = stage_paragraphs s"
  by (simp add: stage_inline_split stage_anchor_quiet quiet_lt)

lemma anchor_fits_no_tags: "60 \<notin> set (stage_paragraphs s) \<Longrightarrow> anchor_fits s"
  by (simp add: anchor_fits_quiet stage_anchor_quiet)

lemma convert_fits: "anchor_fits s \<Longrightarrow> htmlToMrkdwn s = converted s"
  by (simp add: convert_bridge)

lemma convert_no_tags: "60 \<notin> set s \<Longrightarrow> htmlToMrkdwn s = Inr (stage_finish s)"
  using converted_no_tags [of s] anchor_fits_no_tags [of s]
  by (simp add: convert_fits stage_paragraphs_quiet)

lemma convert_plain: "plain s \<Longrightarrow> htmlToMrkdwn s = Inr (tidy s)"
  using convert_no_tags [of s] by (simp add: stage_finish_plain) (simp add: plain_def)

lemma output_tidy:
  assumes "htmlToMrkdwn x = Inr y"
  shows "nl3free y \<and> trimmed y"
proof -
  have "converted x = Inr y" using assms by (simp add: convert_bridge split: if_splits)
  then show ?thesis by (rule converted_tidy)
qed

lemma convert_via_inline:
  "s \<noteq> [] \<Longrightarrow> anchor_fits s \<Longrightarrow> simple (stage_inline s) \<Longrightarrow>
   htmlToMrkdwn s = Inr (tidy (stage_inline s))"
  by (simp add: convert_fits converted_via_inline)

lemma converted_total: "\<exists>y. converted x = Inr y"
proof (cases "x = []")
  case True
  then show ?thesis by (simp add: converted_def)
next
  case False
  obtain t where t: "replaced_fn re_li li_callback (stage_inline x) = Inr t"
    using li_total by blast
  obtain u where u: "replaced_fn re_heading heading_callback (replaced re_list [Lit [LF]] t) = Inr u"
    using heading_total by blast
  show ?thesis using False by (simp add: converted_def t u)
qed

lemma tag_untouched:
  assumes "simple pre" "simple post" "60 \<notin> set body"
    and "match re_br (60 # body @ post) = [] \<and> match re_p_between (60 # body @ post) = []
      \<and> match re_p_open (60 # body @ post) = [] \<and> match re_p_close (60 # body @ post) = []
      \<and> match re_a (60 # body @ post) = []"
  shows "stage_paragraphs (pre @ 60 # body @ post) = pre @ 60 # body @ post"
    and "stage_anchor (pre @ 60 # body @ post) = pre @ 60 # body @ post"
    and "anchor_fits (pre @ 60 # body @ post)"
proof -
  show 1: "stage_paragraphs (pre @ 60 # body @ post) = pre @ 60 # body @ post"
    using assms by (simp add: stage_paragraphs_def Let_def simple_def lt_run str_def)
  show 2: "stage_anchor (pre @ 60 # body @ post) = pre @ 60 # body @ post"
    using assms by (simp add: stage_anchor_def 1) (simp add: simple_def lt_run)
  show "anchor_fits (pre @ 60 # body @ post)" by (simp add: anchor_fits_quiet 1 2)
qed

subsection \<open>The decoder never lengthens the text\<close>

lemma split_from_pieces: "split_from sep acc s \<noteq> []"
  by (induction sep acc s rule: split_from.induct) (simp_all del: starts_with.simps)

lemma join_split_length:
  "length rep \<le> length sep \<Longrightarrow>
   length (join_js rep (split_from sep acc s)) \<le> length acc + length s"
proof (induction sep acc s rule: split_from.induct)
  case (1 sep acc)
  then show ?case by simp
next
  case (2 sep acc c cs)
  show ?case
  proof (cases "sep \<noteq> [] \<and> starts_with sep (c # cs)")
    case True
    then obtain v where v: "c # cs = sep @ v" by (auto simp: starts_with_iff)
    have ih: "length (join_js rep (split_from sep [] (drop (length sep) (c # cs)))) \<le> length v"
      using 2(1) [OF True 2(3)] by (simp add: v)
    obtain p ps where ps: "split_from sep [] (drop (length sep) (c # cs)) = p # ps"
      using split_from_pieces [of sep "[]" "drop (length sep) (c # cs)"]
      by (cases "split_from sep [] (drop (length sep) (c # cs))") auto
    have "length (c # cs) = length sep + length v" by (simp add: v)
    then show ?thesis using True ih 2(3) by (simp add: ps del: starts_with.simps)
  next
    case False
    have "split_from sep acc (c # cs) = split_from sep (acc @ [c]) cs"
      using False by (simp only: split_from.simps(2) if_False)
    then show ?thesis using 2(2) [OF False 2(3)] by simp
  qed
qed

lemma entities_shorter: "(e, r) \<in> set entities \<Longrightarrow> length r \<le> length e"
  by (auto simp: entities_def char_defs)

lemma named_not_longer:
  "(\<And>e r. (e, r) \<in> set es \<Longrightarrow> length r \<le> length e) \<Longrightarrow>
   length (foldl (\<lambda>result (entity, replacement). join_js replacement (split_js entity result)) s es)
     \<le> length s"
proof (induction es arbitrary: s)
  case Nil
  then show ?case by simp
next
  case (Cons p es)
  obtain e r where p: "p = (e, r)" by (cases p)
  have "length (join_js r (split_js e s)) \<le> length s"
    using join_split_length [of r e "[]" s] Cons.prems [of e r] by (simp add: p split_js_def)
  moreover have "length (foldl (\<lambda>result (entity, replacement). join_js replacement (split_js entity result))
      (join_js r (split_js e s)) es) \<le> length (join_js r (split_js e s))"
    by (rule Cons.IH) (use Cons.prems in auto)
  ultimately show ?case by (simp add: p)
qed

lemma numeric_not_longer:
  assumes "flat re" "1 \<le> fixed re"
  shows "length (replace_cb re (\<lambda>caps. fromCharCode (g caps)) s) \<le> length s"
proof -
  have "1 * length (substitute (\<lambda>caps. fromCharCode (g caps)) (scan re s)) \<le> 1 * length s"
  proof (rule scan_weight)
    fix s caps r
    assume m: "(caps, r) \<in> set (match re s)"
    obtain u where "fromCharCode (g caps) = [u]" using fromCharCode_single by blast
    then show "1 * length (fromCharCode (g caps)) + 1 * length r \<le> 1 * length s"
      using match_weight [OF assms(1) m] assms(2) by simp
  qed simp
  then show ?thesis by (simp add: replace_cb_def)
qed

lemma decode_not_longer: "length (decodeHtmlEntities s) \<le> length s"
proof -
  let ?named = "foldl (\<lambda>result (entity, replacement). join_js replacement (split_js entity result)) s entities"
  let ?dec = "replace_cb re_decimal (\<lambda>caps. fromCharCode (parseInt (param caps 1) 10)) ?named"
  have "length ?named \<le> length s" by (rule named_not_longer) (rule entities_shorter)
  moreover have "length ?dec \<le> length ?named"
    by (rule numeric_not_longer) (simp_all add: flat_inline fixed_inline)
  moreover have "length (replace_cb re_hex (\<lambda>caps. fromCharCode (parseInt (param caps 1) 16)) ?dec)
      \<le> length ?dec"
    by (rule numeric_not_longer) (simp_all add: flat_inline fixed_inline)
  ultimately show ?thesis by (simp add: decodeHtmlEntities_def Let_def)
qed

lemma convert_via_paragraphs:
  "s \<noteq> [] \<Longrightarrow> simple (stage_paragraphs s) \<Longrightarrow>
   htmlToMrkdwn s = Inr (tidy (stage_paragraphs s))"
  using convert_via_inline [of s] anchor_fits_no_tags [of s] stage_inline_after_paragraphs [of s]
  by (simp add: simple_def)

lemma bold_fits:
  assumes "simple pre" "simple post" "slash = [] \<or> slash = str ''/''"
    and "map canonicalize name = str ''B'' \<or> map canonicalize name = str ''STRONG''"
    and "rest = [] \<or> (is_space (hd rest) \<and> 60 \<notin> set rest \<and> 62 \<notin> set rest)"
  shows "anchor_fits (pre @ str ''<'' @ slash @ name @ rest @ str ''>'' @ post)"
proof -
  have "60 \<notin> set name" using assms(4) by (rule bold_names) auto
  then have body: "60 \<notin> set (slash @ name @ rest @ [62])"
    using assms(3,5) by (auto simp: str_def)
  show ?thesis
    using tag_untouched(3) [OF assms(1,2) body, of ] bold_misses [OF assms(3,4,5), of post]
    by (simp add: str_def)
qed

lemma italic_fits:
  assumes "simple pre" "simple post" "slash = [] \<or> slash = str ''/''"
    and "map canonicalize name = str ''I'' \<or> map canonicalize name = str ''EM''"
    and "rest = [] \<or> (is_space (hd rest) \<and> 60 \<notin> set rest \<and> 62 \<notin> set rest)"
  shows "anchor_fits (pre @ str ''<'' @ slash @ name @ rest @ str ''>'' @ post)"
proof -
  have "60 \<notin> set name" using assms(4) by (rule italic_names) auto
  then have body: "60 \<notin> set (slash @ name @ rest @ [62])"
    using assms(3,5) by (auto simp: str_def)
  show ?thesis
    using tag_untouched(3) [OF assms(1,2) body, of ] italic_misses [OF assms(3,4,5), of post]
    by (simp add: str_def)
qed

lemma strike_fits:
  assumes "simple pre" "simple post" "slash = [] \<or> slash = str ''/''"
    and "map canonicalize name = str ''S'' \<or> map canonicalize name = str ''STRIKE''
      \<or> map canonicalize name = str ''DEL''"
    and "rest = [] \<or> (is_space (hd rest) \<and> 60 \<notin> set rest \<and> 62 \<notin> set rest)"
  shows "anchor_fits (pre @ str ''<'' @ slash @ name @ rest @ str ''>'' @ post)"
proof -
  have "60 \<notin> set name" using assms(4) by (rule strike_names) auto
  then have body: "60 \<notin> set (slash @ name @ rest @ [62])"
    using assms(3,5) by (auto simp: str_def)
  show ?thesis
    using tag_untouched(3) [OF assms(1,2) body, of ] strike_misses [OF assms(3,4,5), of post]
    by (simp add: str_def)
qed

subsection \<open>Restoring the placeholders\<close>

lemma link_start_nil: "replaced re_link_start tpl [] = []"
  by (simp add: replaced_def match_link_start)

lemma link_end_nil: "replaced re_link_end tpl [] = []"
  by (simp add: replaced_def match_link_end)

lemma link_start_hit:
  assumes "starts_with (NUL # str ''LINK_START'') (c # cs)"
  shows "replaced re_link_start [Lit (str ''<'')] (c # cs)
     = 60 # replaced re_link_start [Lit (str ''<'')] (drop 10 cs)"
proof -
  have "match re_link_start (c # cs) = [([], drop 10 cs)]"
    using assms by (simp add: match_link_start del: starts_with.simps)
  then have "scan re_link_start (c # cs) = Hit [] # scan re_link_start (drop 10 cs)"
    by (rule scan_hit) simp
  then show ?thesis by (simp add: replaced_def str_def)
qed

lemma link_end_hit:
  assumes "starts_with (NUL # str ''LINK_END'') (c # cs)"
  shows "replaced re_link_end [Lit (str ''>'')] (c # cs)
     = 62 # replaced re_link_end [Lit (str ''>'')] (drop 8 cs)"
proof -
  have "match re_link_end (c # cs) = [([], drop 8 cs)]"
    using assms by (simp add: match_link_end del: starts_with.simps)
  then have "scan re_link_end (c # cs) = Hit [] # scan re_link_end (drop 8 cs)"
    by (rule scan_hit) simp
  then show ?thesis by (simp add: replaced_def str_def)
qed

lemma link_start_miss:
  "\<not> starts_with (NUL # str ''LINK_START'') (c # cs) \<Longrightarrow>
   replaced re_link_start tpl (c # cs) = c # replaced re_link_start tpl cs"
  by (simp add: replaced_def match_link_start del: starts_with.simps)

lemma link_end_miss:
  "\<not> starts_with (NUL # str ''LINK_END'') (c # cs) \<Longrightarrow>
   replaced re_link_end tpl (c # cs) = c # replaced re_link_end tpl cs"
  by (simp add: replaced_def match_link_end del: starts_with.simps)

lemma link_start_keeps_head:
  "NUL \<notin> set w \<Longrightarrow> 60 \<notin> set w \<Longrightarrow>
   starts_with w (replaced re_link_start [Lit (str ''<'')] s) \<longleftrightarrow> starts_with w s"
proof (induction w arbitrary: s)
  case Nil
  show ?case by simp
next
  case (Cons a w)
  show ?case
  proof (cases s)
    case Nil
    then show ?thesis by (simp add: link_start_nil)
  next
    case s: (Cons c cs)
    show ?thesis
    proof (cases "starts_with (NUL # str ''LINK_START'') (c # cs)")
      case True
      note h = link_start_hit [OF True]
      have "c = NUL" using True by simp
      then have "\<not> starts_with (a # w) (c # cs)" using Cons.prems by auto
      moreover have "\<not> starts_with (a # w) (60 # replaced re_link_start [Lit (str ''<'')] (drop 10 cs))"
        using Cons.prems by auto
      ultimately show ?thesis unfolding s h by blast
    next
      case False
      then show ?thesis using Cons by (simp add: s link_start_miss [OF False])
    qed
  qed
qed

lemma link_start_passes:
  "NUL \<notin> set w \<Longrightarrow> replaced re_link_start tpl (w @ s) = w @ replaced re_link_start tpl s"
  using scan_quiet [OF needs_other(1), of w s] by (simp add: replaced_def)

lemma restore_steps: 
  "replaced re_link_end [Lit (str ''>'')] (replaced re_link_start [Lit (str ''<'')] s) = restore s"
proof (induction s rule: restore.induct)
  case 1
  show ?case by (simp add: link_start_nil link_end_nil)
next
  case (2 c cs)
  let ?rs = "replaced re_link_start [Lit (str ''<'')]"
  let ?re = "replaced re_link_end [Lit (str ''>'')]"
  consider (start) "starts_with (NUL # str ''LINK_START'') (c # cs)"
    | (finish) "\<not> starts_with (NUL # str ''LINK_START'') (c # cs)"
        "starts_with (NUL # str ''LINK_END'') (c # cs)"
    | (other) "\<not> starts_with (NUL # str ''LINK_START'') (c # cs)"
        "\<not> starts_with (NUL # str ''LINK_END'') (c # cs)"
    by blast
  then show ?case
  proof cases
    case start
    have "?re (?rs (c # cs)) = ?re (60 # ?rs (drop 10 cs))" by (simp only: link_start_hit [OF start])
    also have "\<dots> = 60 # ?re (?rs (drop 10 cs))"
      by (rule link_end_miss) (simp add: NUL_def)
    also have "\<dots> = 60 # restore (drop 10 cs)" using 2(1) [OF start] by simp
    finally show ?thesis using start by (simp del: starts_with.simps)
  next
    case finish
    then obtain v where v: "cs = str ''LINK_END'' @ v" and c: "c = NUL"
      by (auto simp: starts_with_iff)
    have "?rs (c # cs) = c # ?rs cs" by (rule link_start_miss [OF finish(1)])
    also have "?rs cs = str ''LINK_END'' @ ?rs v"
      unfolding v by (rule link_start_passes) (simp add: char_defs)
    finally have "?re (?rs (c # cs)) = ?re (NUL # str ''LINK_END'' @ ?rs v)" by (simp add: c)
    also have "\<dots> = 62 # ?re (?rs v)"
      using link_end_hit [of NUL "str ''LINK_END'' @ ?rs v"] by (simp add: str_def)
    also have "\<dots> = 62 # restore (drop 8 cs)" using 2(2) [OF finish] by (simp add: v str_def)
    finally show ?thesis using finish by (simp del: starts_with.simps)
  next
    case other
    have 1: "?rs (c # cs) = c # ?rs cs" by (rule link_start_miss [OF other(1)])
    have "\<not> starts_with (NUL # str ''LINK_END'') (c # ?rs cs)"
    proof
      assume a: "starts_with (NUL # str ''LINK_END'') (c # ?rs cs)"
      then have "starts_with (str ''LINK_END'') (?rs cs)" by simp
      then have "starts_with (str ''LINK_END'') cs"
        using link_start_keeps_head [of "str ''LINK_END''" cs] by (simp add: char_defs)
      then show False using other(2) a by simp
    qed
    then have "?re (c # ?rs cs) = c # ?re (?rs cs)" by (rule link_end_miss)
    then show ?thesis using 1 2(3) [OF other] other by (simp del: starts_with.simps)
  qed
qed

lemma convert_restores:
  assumes "60 \<notin> set s"
  shows "htmlToMrkdwn s = Inr (tidy (decodeHtmlEntities (restore s)))"
  using assms by (simp add: convert_no_tags stage_finish_tidy quiet_lt restore_steps)

lemma restore_text: "NUL \<notin> set a \<Longrightarrow> restore (a @ s) = a @ restore s"
  by (induction a) (auto simp: NUL_def)


subsection \<open>The first pass of the decoder\<close>

lemma join_cons: "ps \<noteq> [] \<Longrightarrow> join_js rep (p # ps) = p @ rep @ join_js rep ps"
  by (cases ps) simp_all

lemma split_acc:
  "join_js rep (split_from sep acc s) = acc @ join_js rep (split_from sep [] s)"
proof (induction "length s" arbitrary: s acc rule: less_induct)
  case less
  show ?case
  proof (cases s)
    case Nil
    then show ?thesis by simp
  next
    case (Cons c cs)
    show ?thesis
    proof (cases "sep \<noteq> [] \<and> starts_with sep (c # cs)")
      case True
      have "split_from sep a (c # cs) = a # split_from sep [] (drop (length sep) (c # cs))" for a
        using True by (simp only: split_from.simps(2)) simp
      then show ?thesis by (simp add: Cons join_cons split_from_pieces del: split_from.simps)
    next
      case False
      have step: "split_from sep a (c # cs) = split_from sep (a @ [c]) cs" for a
        using False by (simp only: split_from.simps(2)) simp
      have "join_js rep (split_from sep (acc @ [c]) cs) = (acc @ [c]) @ join_js rep (split_from sep [] cs)"
        using less [of cs "acc @ [c]"] by (simp add: Cons)
      moreover have "join_js rep (split_from sep ([] @ [c]) cs) = [c] @ join_js rep (split_from sep [] cs)"
        using less [of cs "[c]"] by (simp add: Cons)
      ultimately show ?thesis by (simp add: Cons step del: split_from.simps)
    qed
  qed
qed

lemma split_join_hit:
  "sep \<noteq> [] \<Longrightarrow> join_js rep (split_js sep (sep @ t)) = rep @ join_js rep (split_js sep t)"
proof -
  assume ne: "sep \<noteq> []"
  then obtain c cs where s: "sep @ t = c # cs" by (cases sep) auto
  have "starts_with sep (c # cs)" unfolding s [symmetric] by (simp add: starts_with_iff)
  then have "split_from sep [] (c # cs) = [] # split_from sep [] (drop (length sep) (c # cs))"
    using ne by (simp only: split_from.simps(2)) simp
  then show ?thesis
    unfolding split_js_def s by (simp add: join_cons split_from_pieces s [symmetric] del: split_from.simps)
qed

lemma split_join_miss:
  "\<not> starts_with sep (c # cs) \<Longrightarrow>
   join_js rep (split_js sep (c # cs)) = c # join_js rep (split_js sep cs)"
proof -
  assume "\<not> starts_with sep (c # cs)"
  then have "split_from sep [] (c # cs) = split_from sep ([] @ [c]) cs"
    by (simp only: split_from.simps(2)) simp
  then show ?thesis
    unfolding split_js_def using split_acc [of rep sep "[c]" cs] by (simp del: split_from.simps)
qed

lemma split_join_passes:
  "p \<notin> set a \<Longrightarrow>
   join_js rep (split_js (p # ps) (a @ s)) = a @ join_js rep (split_js (p # ps) s)"
  by (induction a) (simp_all add: split_join_miss)

lemma amp_written_out:
  assumes "38 \<notin> set pre" "\<not> starts_with (str ''amp;'') t"
  shows "join_js (str ''&'') (split_js (str ''&amp;'') (pre @ str ''&amp;'' @ t))
    = join_js (str ''&'') (split_js (str ''&amp;'') (pre @ str ''&'' @ t))"
proof -
  let ?amp = "\<lambda>s. join_js (str ''&'') (split_js (str ''&amp;'') s)"
  have sep: "str ''&amp;'' = 38 # str ''amp;''" by (simp add: str_def)
  have "?amp (pre @ str ''&amp;'' @ t) = pre @ ?amp (str ''&amp;'' @ t)"
    unfolding sep using assms(1) by (rule split_join_passes)
  also have "?amp (str ''&amp;'' @ t) = str ''&'' @ ?amp t"
    by (rule split_join_hit) (simp add: str_def)
  finally have 1: "?amp (pre @ str ''&amp;'' @ t) = pre @ str ''&'' @ ?amp t" .
  have "?amp (pre @ str ''&'' @ t) = pre @ ?amp (str ''&'' @ t)"
    unfolding sep using assms(1) by (rule split_join_passes)
  also have "?amp (str ''&'' @ t) = 38 # ?amp t"
    using split_join_miss [of "str ''&amp;''" 38 t "str ''&''"] assms(2) by (simp add: str_def)
  finally have 2: "?amp (pre @ str ''&'' @ t) = pre @ str ''&'' @ ?amp t" by (simp add: str_def)
  show ?thesis by (simp only: 1 2)
qed

lemma decode_after_amp:
  assumes "join_js (str ''&'') (split_js (str ''&amp;'') s1)
    = join_js (str ''&'') (split_js (str ''&amp;'') s2)"
  shows "decodeHtmlEntities s1 = decodeHtmlEntities s2"
  unfolding decodeHtmlEntities_def Let_def entities_def foldl.simps prod.case
  by (simp only: assms)

lemma decode_amp_written_out:
  "38 \<notin> set pre \<Longrightarrow> \<not> starts_with (str ''amp;'') t \<Longrightarrow>
   decodeHtmlEntities (pre @ str ''&amp;'' @ t) = decodeHtmlEntities (pre @ str ''&'' @ t)"
  by (rule decode_after_amp) (rule amp_written_out)

lemma restore_none: "NUL \<notin> set s \<Longrightarrow> restore s = s"
  using restore_text [of s "[]"] by simp

lemma convert_decodes:
  "60 \<notin> set s \<Longrightarrow> NUL \<notin> set s \<Longrightarrow> htmlToMrkdwn s = Inr (tidy (decodeHtmlEntities s))"
  by (simp add: convert_restores restore_none)

lemma later_entities:
  "list_all (\<lambda>(e, r). decodeHtmlEntities (str ''&amp;'' @ tl e) = r) (tl entities)"
  by (simp add: eval_defs)

subsection \<open>A text of many anchors\<close>

lemma scan_misses: "misses re a rest \<Longrightarrow> scan re (a @ rest) = map Text a @ scan re rest"
  by (induction a) simp_all

lemma scan_repeated_misses:
  assumes "match re [] = []" and "\<And>rest. misses re a rest"
  shows "scan re (concat (replicate n a)) = map Text (concat (replicate n a))"
proof (induction n)
  case 0
  show ?case using assms(1) by simp
next
  case (Suc n)
  show ?case using scan_misses [OF assms(2), of "concat (replicate n a)"] Suc by simp
qed

lemma replaced_repeated_misses:
  assumes "match re [] = []" and "\<And>rest. misses re a rest"
  shows "replaced re tpl (concat (replicate n a)) = concat (replicate n a)"
  by (simp add: replaced_def scan_repeated_misses [OF assms])

lemma empty_anchor_misses:
  "misses re_br (str ''<a href='' @ [DQUOTE, DQUOTE] @ str ''></a>'') rest"
  "misses re_p_between (str ''<a href='' @ [DQUOTE, DQUOTE] @ str ''></a>'') rest"
  "misses re_p_open (str ''<a href='' @ [DQUOTE, DQUOTE] @ str ''></a>'') rest"
  "misses re_p_close (str ''<a href='' @ [DQUOTE, DQUOTE] @ str ''></a>'') rest"
  by (simp_all add: char_defs needs_inline [THEN needs_miss] miss_rules)

lemma empty_anchor_paragraphs:
  "stage_paragraphs (concat (replicate n (str ''<a href='' @ [DQUOTE, DQUOTE] @ str ''></a>'')))
     = concat (replicate n (str ''<a href='' @ [DQUOTE, DQUOTE] @ str ''></a>''))"
  by (simp only: stage_paragraphs_def Let_def
      replaced_repeated_misses [OF needs_inline(1) [THEN needs_nil] empty_anchor_misses(1)]
      replaced_repeated_misses [OF needs_inline(2) [THEN needs_nil] empty_anchor_misses(2)]
      replaced_repeated_misses [OF needs_inline(3) [THEN needs_nil] empty_anchor_misses(3)]
      replaced_repeated_misses [OF needs_inline(4) [THEN needs_nil] empty_anchor_misses(4)])

lemma empty_anchor_match:
  "\<exists>ms. match re_a ((str ''<a href='' @ [DQUOTE, DQUOTE] @ str ''></a>'') @ rest)
     = ([(1, []), (2, [])], rest) # ms"
  using anchor_match [of "str ''<a''" 32 "[]" "str ''href=''" "[]" "[]" "[]" "str ''</a>''" rest]
  by (simp add: char_defs is_space_def contains_i_def)

lemma empty_anchor_scan:
  "scan re_a (concat (replicate n (str ''<a href='' @ [DQUOTE, DQUOTE] @ str ''></a>'')))
     = replicate n (Hit [(1, []), (2, [])])"
proof (induction n)
  case 0
  show ?case by (simp add: needs_inline(5) [THEN needs_nil])
next
  case (Suc n)
  let ?rest = "concat (replicate n (str ''<a href='' @ [DQUOTE, DQUOTE] @ str ''></a>''))"
  obtain ms where m: "match re_a ((str ''<a href='' @ [DQUOTE, DQUOTE] @ str ''></a>'') @ ?rest)
     = ([(1, []), (2, [])], ?rest) # ms"
    using empty_anchor_match by blast
  have "scan re_a (60 # (str ''a href='' @ [DQUOTE, DQUOTE] @ str ''></a>'') @ ?rest)
      = Hit [(1, []), (2, [])] # scan re_a ?rest"
    by (rule scan_hit [of _ _ _ _ _ ms]) (use m in \<open>simp_all add: str_def\<close>)
  then show ?case using Suc by (simp add: str_def)
qed

lemma empty_anchor_length:
  "length (concat (replicate n (str ''<a href='' @ [DQUOTE, DQUOTE] @ str ''></a>''))) = 15 * n"
  by (induction n) (simp_all add: str_def)

lemma empty_anchor_text:
  "length (stage_anchor (concat (replicate n (str ''<a href='' @ [DQUOTE, DQUOTE] @ str ''></a>''))))
     = 21 * n"
proof -
  have "length (substitute (expand link_template) (replicate k (Hit [(1, []), (2, [])]))) = 21 * k" for k
    by (induction k) (simp_all add: link_template_def capture_def str_def)
  then show ?thesis
    by (simp only: stage_anchor_def empty_anchor_paragraphs replaced_def empty_anchor_scan)
qed

lemma empty_anchors_refused:
  assumes "max_string_length < 21 * n"
  shows "htmlToMrkdwn (concat (replicate n (str ''<a href='' @ [DQUOTE, DQUOTE] @ str ''></a>'')))
     = Inl RangeError"
proof -
  let ?x = "concat (replicate n (str ''<a href='' @ [DQUOTE, DQUOTE] @ str ''></a>''))"
  have "0 < n" using assms by (cases n) simp_all
  then have ne: "?x \<noteq> []" by (cases n) (simp_all add: str_def)
  have "\<not> anchor_fits ?x"
    unfolding anchor_fits_def empty_anchor_text empty_anchor_paragraphs empty_anchor_length
    using assms \<open>0 < n\<close> by simp
  then show ?thesis using ne by (simp add: convert_bridge)
qed

lemma refusal_is_anchor:
  "htmlToMrkdwn x = Inl RangeError \<longleftrightarrow> x \<noteq> [] \<and> \<not> anchor_fits x"
  using converted_total [of x] by (auto simp: convert_bridge)

lemma never_type_error: "htmlToMrkdwn x \<noteq> Inl TypeError"
  using converted_total [of x] by (auto simp: convert_bridge)

section \<open>When the converter throws\<close>

text \<open>
  Claim C1, as amended.  The converter never throws a TypeError: the two callbacks that
  call \<open>trim\<close> on a capture read a group that takes part in every match of their
  pattern.  Every loop of the model (the scan of a global pattern, \<open>split\<close>) is a total
  function.  The only step that can make the text longer is the one that replaces an
  anchor by its placeholders, by 6 code units for each anchor of at least 15; so the
  converter returns a string for every input of at most 5/7 of the maximal string
  length, and it throws, a RangeError, exactly when the text of that step is longer than
  the text before it and than the maximum.
\<close>

theorem converter_total_within_limit:
  "htmlToMrkdwn x \<noteq> Inl TypeError
   \<and> (7 * length x \<le> 5 * max_string_length \<longrightarrow> (\<exists>y. htmlToMrkdwn x = Inr y))
   \<and> (60 \<notin> set x \<longrightarrow> (\<exists>y. htmlToMrkdwn x = Inr y))
   \<and> (htmlToMrkdwn x = Inl RangeError \<longleftrightarrow>
        x \<noteq> [] \<and> max_string_length < length (stage_anchor x)
        \<and> length (stage_paragraphs x) < length (stage_anchor x))
   \<and> ((\<exists>y. htmlToMrkdwn x = Inr y) \<or> htmlToMrkdwn x = Inl RangeError)"
proof -
  have A: "htmlToMrkdwn x \<noteq> Inl TypeError" by (rule never_type_error)
  have B: "\<exists>y. htmlToMrkdwn x = Inr y" if "7 * length x \<le> 5 * max_string_length"
    using converted_total [of x] anchor_fits_small [OF that] by (simp add: convert_fits)
  have C: "\<exists>y. htmlToMrkdwn x = Inr y" if "60 \<notin> set x"
    using that by (simp add: convert_no_tags)
  have D: "htmlToMrkdwn x = Inl RangeError \<longleftrightarrow>
        x \<noteq> [] \<and> max_string_length < length (stage_anchor x)
        \<and> length (stage_paragraphs x) < length (stage_anchor x)"
    by (auto simp: refusal_is_anchor anchor_fits_def)
  have E: "(\<exists>y. htmlToMrkdwn x = Inr y) \<or> htmlToMrkdwn x = Inl RangeError"
  proof (cases "htmlToMrkdwn x")
    case (Inl e)
    then show ?thesis using A by (cases e) simp_all
  next
    case (Inr y)
    then show ?thesis by simp
  qed
  show ?thesis by (intro conjI impI) (rule A B C D E, assumption?)+
qed

theorem converter_total_within_limit_witness:
  "7 * length (str ''<h1>Agenda</h1><ul><li> a </li></ul><a href=x>y</a>'') \<le> 5 * max_string_length
   \<and> (\<exists>y. htmlToMrkdwn (str ''<h1>Agenda</h1><ul><li> a </li></ul><a href=x>y</a>'') = Inr y)
   \<and> 60 \<notin> set (str ''a > b'')
   \<and> (\<exists>y. htmlToMrkdwn (str ''a > b'') = Inr y)"
proof -
  have h: "7 * length (str ''<h1>Agenda</h1><ul><li> a </li></ul><a href=x>y</a>'') \<le> 5 * max_string_length"
    "60 \<notin> set (str ''a > b'')"
    by (simp_all add: str_def max_string_length_def)
  show ?thesis
    using converter_total_within_limit [of "str ''<h1>Agenda</h1><ul><li> a </li></ul><a href=x>y</a>''"]
      converter_total_within_limit [of "str ''a > b''"] h
    by (intro conjI) (assumption | blast)+
qed

text \<open>
  The claim as stated fails on a string of 25,600,000 anchors with empty URL and label:
  it has 384,000,000 code units, and the text with the placeholders would have
  537,600,000, more than a string can hold.
\<close>

theorem many_anchors_refused:
  "length (concat (replicate 25600000 (str ''<a href='' @ [DQUOTE, DQUOTE] @ str ''></a>'')))
     \<le> max_string_length
   \<and> htmlToMrkdwn (concat (replicate 25600000 (str ''<a href='' @ [DQUOTE, DQUOTE] @ str ''></a>'')))
     = Inl RangeError"
proof
  show "length (concat (replicate 25600000 (str ''<a href='' @ [DQUOTE, DQUOTE] @ str ''></a>'')))
     \<le> max_string_length"
    unfolding empty_anchor_length max_string_length_def by simp
  have "max_string_length < 21 * 25600000" unfolding max_string_length_def by simp
  then show "htmlToMrkdwn (concat (replicate 25600000 (str ''<a href='' @ [DQUOTE, DQUOTE] @ str ''></a>'')))
     = Inl RangeError"
    by (rule empty_anchors_refused)
qed

section \<open>Text without markup\<close>

text \<open>
  Claim C2.  The empty string and \<open>plain text\<close> are returned as they are, but not every
  text without markup is: the last two steps collapse line feeds and trim white space
  on every input that is not empty, so that a space at the start is lost.
\<close>

theorem leading_space_removed:
  "htmlToMrkdwn [] = Inr []
   \<and> htmlToMrkdwn (str ''plain text'') = Inr (str ''plain text'')
   \<and> 60 \<notin> set (str '' a'') \<and> 62 \<notin> set (str '' a'') \<and> 38 \<notin> set (str '' a'')
   \<and> htmlToMrkdwn (str '' a'') = Inr (str ''a'')
   \<and> htmlToMrkdwn (str '' a'') \<noteq> Inr (str '' a'')"
proof -
  have 1: "htmlToMrkdwn [] = Inr []" by (simp add: htmlToMrkdwn_def)
  have 2: "htmlToMrkdwn (str ''plain text'') = Inr (str ''plain text'')"
    by (simp add: eval_defs)
  have 3: "60 \<notin> set (str '' a'') \<and> 62 \<notin> set (str '' a'') \<and> 38 \<notin> set (str '' a'')"
    by (simp add: str_def)
  have 4: "htmlToMrkdwn (str '' a'') = Inr (str ''a'')" by (simp add: eval_defs)
  have 5: "htmlToMrkdwn (str '' a'') \<noteq> Inr (str '' a'')" using 4 by (simp add: str_def)
  show ?thesis using 1 2 3 4 5 by simp
qed

section \<open>Converting twice\<close>

text \<open>
  Claim C3, as amended.  When the output of the converter has no \<open><\<close>, no \<open>&\<close> and no
  link placeholder, converting it again returns it unchanged.
\<close>

theorem second_pass_unchanged:
  "htmlToMrkdwn x = Inr y \<Longrightarrow> plain y \<Longrightarrow> htmlToMrkdwn y = Inr y"
  using output_tidy [of x y] by (simp add: convert_plain tidy_id)

theorem second_pass_unchanged_witness:
  "htmlToMrkdwn (str ''<b>a</b>'') = Inr (str ''*a*'') \<and> plain (str ''*a*'')
   \<and> htmlToMrkdwn (str ''*a*'') = Inr (str ''*a*'')"
proof -
  have 1: "htmlToMrkdwn (str ''<b>a</b>'') = Inr (str ''*a*'')" by (simp add: eval_defs)
  have 2: "plain (str ''*a*'')" by (simp add: plain_def char_defs)
  show ?thesis using second_pass_unchanged [OF 1 2] 1 2 by simp
qed

text \<open>
  The claim as stated fails when the output has no angle bracket but has an entity, or a
  placeholder made by a numeric entity: the second pass decodes the one and restores the
  other.
\<close>

theorem second_pass_decodes_again:
  "htmlToMrkdwn (str ''&amp;amp;'') = Inr (str ''&amp;'')
   \<and> 60 \<notin> set (str ''&amp;'') \<and> 62 \<notin> set (str ''&amp;'')
   \<and> htmlToMrkdwn (str ''&amp;'') = Inr (str ''&'')
   \<and> htmlToMrkdwn (str ''&amp;'') \<noteq> Inr (str ''&amp;'')
   \<and> htmlToMrkdwn (str ''&#0;LINK_START'') = Inr (NUL # str ''LINK_START'')
   \<and> 60 \<notin> set (NUL # str ''LINK_START'') \<and> 62 \<notin> set (NUL # str ''LINK_START'')
   \<and> htmlToMrkdwn (NUL # str ''LINK_START'') = Inr (str ''<'')
   \<and> htmlToMrkdwn (NUL # str ''LINK_START'') \<noteq> Inr (NUL # str ''LINK_START'')"
  by (simp add: eval_defs)

section \<open>Links\<close>

text \<open>
  Claim C4.  The anchor of the example becomes \<open><https://x.com|L>\<close>, also with
  \<open>target="_blank"\<close> after \<open>href\<close>.  But the pattern lets any text stand before
  \<open>href="\<close> and prefers the longest: with an attribute \<open>data-href\<close> after
  \<open>href\<close>, the value of \<open>data-href\<close> is taken for the URL.
\<close>

theorem anchor_takes_last_href:
  "htmlToMrkdwn (str ''<a href='' @ [DQUOTE] @ str ''https://x.com'' @ [DQUOTE] @ str ''>L</a>'')
       = Inr (str ''<https://x.com|L>'')
   \<and> htmlToMrkdwn (str ''<a href='' @ [DQUOTE] @ str ''https://x.com'' @ [DQUOTE] @ str '' target=''
         @ [DQUOTE] @ str ''_blank'' @ [DQUOTE] @ str ''>L</a>'')
       = Inr (str ''<https://x.com|L>'')
   \<and> htmlToMrkdwn (str ''<a href='' @ [DQUOTE] @ str ''u'' @ [DQUOTE] @ str '' data-href=''
       @ [DQUOTE] @ str ''v'' @ [DQUOTE] @ str ''>L</a>'')
     = Inr (str ''<v|L>'')
   \<and> htmlToMrkdwn (str ''<a href='' @ [DQUOTE] @ str ''u'' @ [DQUOTE] @ str '' data-href=''
       @ [DQUOTE] @ str ''v'' @ [DQUOTE] @ str ''>L</a>'')
     \<noteq> Inr (str ''<u|L>'')"
proof -
  have 1: "htmlToMrkdwn (str ''<a href='' @ [DQUOTE] @ str ''https://x.com'' @ [DQUOTE] @ str ''>L</a>'')
       = Inr (str ''<https://x.com|L>'')"
    by (simp add: eval_defs)
  have 2: "htmlToMrkdwn (str ''<a href='' @ [DQUOTE] @ str ''https://x.com'' @ [DQUOTE] @ str '' target=''
         @ [DQUOTE] @ str ''_blank'' @ [DQUOTE] @ str ''>L</a>'')
       = Inr (str ''<https://x.com|L>'')"
    by (simp add: eval_defs)
  have 3: "htmlToMrkdwn (str ''<a href='' @ [DQUOTE] @ str ''u'' @ [DQUOTE] @ str '' data-href=''
       @ [DQUOTE] @ str ''v'' @ [DQUOTE] @ str ''>L</a>'')
     = Inr (str ''<v|L>'')"
    by (simp add: eval_defs)
  have 4: "htmlToMrkdwn (str ''<a href='' @ [DQUOTE] @ str ''u'' @ [DQUOTE] @ str '' data-href=''
       @ [DQUOTE] @ str ''v'' @ [DQUOTE] @ str ''>L</a>'')
     \<noteq> Inr (str ''<u|L>'')"
    unfolding 3 by (simp add: str_def)
  show ?thesis by (intro conjI 1 2 3 4)
qed

section \<open>Paragraphs\<close>



section \<open>Bold, italic and strikethrough\<close>

text \<open>
  Claim C6, as amended.  A tag is \<open><\<close>, an optional slash, the name in any letter case, then
  either nothing or white space followed by any attribute text without angle brackets,
  and \<open>>\<close>.  In text without \<open><\<close>, \<open>&\<close> and U+0000 around it, such a tag named
  \<open>b\<close> or \<open>strong\<close> becomes one \<open>*\<close>, one named \<open>i\<close> or \<open>em\<close> becomes one \<open>_\<close>,
  and one named \<open>s\<close>, \<open>strike\<close> or \<open>del\<close> becomes one \<open>~\<close> (the result is then
  normalised as every result is).  So \<open><i>a</i>\<close>, \<open><b>a</b>\<close> and \<open><s>a</s>\<close>
  become \<open>_a_\<close>, \<open>*a*\<close> and \<open>~a~\<close>.
\<close>

theorem inline_style_tags:
  "(simple pre \<and> simple post \<and> (slash = [] \<or> slash = str ''/'')
      \<and> (rest = [] \<or> (is_space (hd rest) \<and> 60 \<notin> set rest \<and> 62 \<notin> set rest))
    \<longrightarrow> ((map canonicalize name = str ''B'' \<or> map canonicalize name = str ''STRONG'')
          \<longrightarrow> htmlToMrkdwn (pre @ str ''<'' @ slash @ name @ rest @ str ''>'' @ post)
                = Inr (tidy (pre @ str ''*'' @ post)))
        \<and> ((map canonicalize name = str ''I'' \<or> map canonicalize name = str ''EM'')
          \<longrightarrow> htmlToMrkdwn (pre @ str ''<'' @ slash @ name @ rest @ str ''>'' @ post)
                = Inr (tidy (pre @ str ''_'' @ post)))
        \<and> ((map canonicalize name = str ''S'' \<or> map canonicalize name = str ''STRIKE''
              \<or> map canonicalize name = str ''DEL'')
          \<longrightarrow> htmlToMrkdwn (pre @ str ''<'' @ slash @ name @ rest @ str ''>'' @ post)
                = Inr (tidy (pre @ str ''~'' @ post))))
   \<and> htmlToMrkdwn (str ''<i>a</i>'') = Inr (str ''_a_'')
   \<and> htmlToMrkdwn (str ''<b>a</b>'') = Inr (str ''*a*'')
   \<and> htmlToMrkdwn (str ''<s>a</s>'') = Inr (str ''~a~'')"
proof -
  let ?in = "pre @ str ''<'' @ slash @ name @ rest @ str ''>'' @ post"
  have ne: "?in \<noteq> []" by (simp add: str_def)
  have fin: "htmlToMrkdwn ?in = Inr (tidy (pre @ d @ post))"
    if "stage_inline ?in = pre @ d @ post" "anchor_fits ?in" "simple pre" "simple post" "simple d" for d
    using convert_via_inline [OF ne] that by simp
  have d: "simple (str ''*'')" "simple (str ''_'')" "simple (str ''~'')"
    by (simp_all add: char_defs)
  have A: "htmlToMrkdwn ?in = Inr (tidy (pre @ str ''*'' @ post))"
    if "simple pre" "simple post" "slash = [] \<or> slash = str ''/''"
      "rest = [] \<or> (is_space (hd rest) \<and> 60 \<notin> set rest \<and> 62 \<notin> set rest)"
      "map canonicalize name = str ''B'' \<or> map canonicalize name = str ''STRONG''"
    using fin [OF bold_stage [OF that(1,2,3,5,4)] bold_fits [OF that(1,2,3,5,4)] that(1,2) d(1)] .
  have B: "htmlToMrkdwn ?in = Inr (tidy (pre @ str ''_'' @ post))"
    if "simple pre" "simple post" "slash = [] \<or> slash = str ''/''"
      "rest = [] \<or> (is_space (hd rest) \<and> 60 \<notin> set rest \<and> 62 \<notin> set rest)"
      "map canonicalize name = str ''I'' \<or> map canonicalize name = str ''EM''"
    using fin [OF italic_stage [OF that(1,2,3,5,4)] italic_fits [OF that(1,2,3,5,4)] that(1,2) d(2)] .
  have C: "htmlToMrkdwn ?in = Inr (tidy (pre @ str ''~'' @ post))"
    if "simple pre" "simple post" "slash = [] \<or> slash = str ''/''"
      "rest = [] \<or> (is_space (hd rest) \<and> 60 \<notin> set rest \<and> 62 \<notin> set rest)"
      "map canonicalize name = str ''S'' \<or> map canonicalize name = str ''STRIKE''
        \<or> map canonicalize name = str ''DEL''"
    using fin [OF strike_stage [OF that(1,2,3,5,4)] strike_fits [OF that(1,2,3,5,4)] that(1,2) d(3)] .
  have E: "htmlToMrkdwn (str ''<i>a</i>'') = Inr (str ''_a_'')"
    "htmlToMrkdwn (str ''<b>a</b>'') = Inr (str ''*a*'')"
    "htmlToMrkdwn (str ''<s>a</s>'') = Inr (str ''~a~'')"
    by (simp_all add: eval_defs)
  show ?thesis using A B C E by blast
qed

theorem inline_style_tags_witness:
  "htmlToMrkdwn (str ''x '' @ str ''<'' @ str ''/'' @ str ''StRoNg'' @ str '' id=1'' @ str ''>'' @ str '' y'')
     = Inr (str ''x * y'')
   \<and> htmlToMrkdwn (str ''x '' @ str ''<'' @ [] @ str ''Em'' @ [] @ str ''>'' @ str '' y'')
     = Inr (str ''x _ y'')
   \<and> htmlToMrkdwn (str ''x '' @ str ''<'' @ [] @ str ''DEL'' @ str '' cite=q'' @ str ''>'' @ str '' y'')
     = Inr (str ''x ~ y'')"
proof -
  note i1 = inline_style_tags [where pre = "str ''x ''" and post = "str '' y''"
      and slash = "str ''/''" and name = "str ''StRoNg''" and rest = "str '' id=1''"]
  note i2 = inline_style_tags [where pre = "str ''x ''" and post = "str '' y''"
      and slash = "[]" and name = "str ''Em''" and rest = "[]"]
  note i3 = inline_style_tags [where pre = "str ''x ''" and post = "str '' y''"
      and slash = "[]" and name = "str ''DEL''" and rest = "str '' cite=q''"]
  have h: "simple (str ''x '')" "simple (str '' y'')"
    "is_space (hd (str '' id=1'')) \<and> 60 \<notin> set (str '' id=1'') \<and> 62 \<notin> set (str '' id=1'')"
    "is_space (hd (str '' cite=q'')) \<and> 60 \<notin> set (str '' cite=q'') \<and> 62 \<notin> set (str '' cite=q'')"
    "map canonicalize (str ''StRoNg'') = str ''STRONG''"
    "map canonicalize (str ''Em'') = str ''EM''"
    "map canonicalize (str ''DEL'') = str ''DEL''"
    by (simp_all add: char_defs is_space_def)
  have t: "tidy (str ''x '' @ str ''*'' @ str '' y'') = str ''x * y''"
    "tidy (str ''x '' @ str ''_'' @ str '' y'') = str ''x _ y''"
    "tidy (str ''x '' @ str ''~'' @ str '' y'') = str ''x ~ y''"
    by (simp_all add: tidy_def collapse_newlines_def eval_defs)
  have "htmlToMrkdwn (str ''x '' @ str ''<'' @ str ''/'' @ str ''StRoNg'' @ str '' id=1'' @ str ''>'' @ str '' y'')
     = Inr (tidy (str ''x '' @ str ''*'' @ str '' y''))"
    using i1 h by blast
  moreover have "htmlToMrkdwn (str ''x '' @ str ''<'' @ [] @ str ''Em'' @ [] @ str ''>'' @ str '' y'')
     = Inr (tidy (str ''x '' @ str ''_'' @ str '' y''))"
    using i2 h by blast
  moreover have "htmlToMrkdwn (str ''x '' @ str ''<'' @ [] @ str ''DEL'' @ str '' cite=q'' @ str ''>'' @ str '' y'')
     = Inr (tidy (str ''x '' @ str ''~'' @ str '' y''))"
    using i3 h by blast
  ultimately show ?thesis by (simp only: t) 
qed

text \<open>
  The claim as stated fails when an attribute value contains \<open>>\<close>: the tag ends there,
  and the rest of the attribute stays in the text.
\<close>

theorem attribute_with_angle_bracket:
  "htmlToMrkdwn (str ''<b title='' @ [DQUOTE] @ str ''a>b'' @ [DQUOTE] @ str ''>x</b>'')
     = Inr (str ''*b'' @ [DQUOTE] @ str ''>x*'')
   \<and> htmlToMrkdwn (str ''<b title='' @ [DQUOTE] @ str ''a>b'' @ [DQUOTE] @ str ''>x</b>'')
     \<noteq> Inr (str ''*x*'')"
  by (simp add: eval_defs)

section \<open>Line breaks and white space\<close>

text \<open>
  Claim C7.  A \<open><br>\<close> tag, in either letter case, with any white space after the
  name and with or without a slash before \<open>>\<close>, becomes one line feed.  No output of the
  converter has three line feeds in a row or white space at either end, and a run of
  three or more line feeds between two texts comes out as exactly two.  So
  \<open>a<br><br><br><br>b\<close> becomes \<open>a\<close>, two line feeds, \<open>b\<close>.
\<close>

theorem breaks_and_whitespace:
  "(simple pre \<and> simple post \<and> map canonicalize name = str ''BR''
      \<and> (\<forall>x\<in>set ws. is_space x) \<and> (slash = [] \<or> slash = str ''/'')
    \<longrightarrow> htmlToMrkdwn (pre @ str ''<'' @ name @ ws @ slash @ str ''>'' @ post)
          = Inr (tidy (pre @ [LF] @ post)))
   \<and> (htmlToMrkdwn x = Inr y \<longrightarrow> nl3free y \<and> trimmed y)
   \<and> (simple pre \<and> simple post \<and> LF \<notin> set pre \<and> LF \<notin> set post \<and> pre \<noteq> [] \<and> post \<noteq> []
      \<and> trimmed pre \<and> trimmed post \<and> 3 \<le> n
    \<longrightarrow> htmlToMrkdwn (pre @ replicate n LF @ post) = Inr (pre @ [LF, LF] @ post))
   \<and> htmlToMrkdwn (str ''a<br><br><br><br>b'') = Inr (str ''a'' @ [LF, LF] @ str ''b'')"
proof -
  have A: "htmlToMrkdwn (pre @ str ''<'' @ name @ ws @ slash @ str ''>'' @ post)
          = Inr (tidy (pre @ [LF] @ post))"
    if a: "simple pre \<and> simple post \<and> map canonicalize name = str ''BR''
      \<and> (\<forall>x\<in>set ws. is_space x) \<and> (slash = [] \<or> slash = str ''/'')"
  proof -
    let ?tag = "str ''<'' @ name @ ws @ slash @ str ''>''"
    have m: "match re_br (?tag @ post) = [([], post)]"
      using br_match [of name ws slash post] a by simp
    have "replaced re_br [Lit [LF]] (pre @ ?tag @ post) = pre @ expand [Lit [LF]] [] @ post"
      by (rule replace_one [OF needs_inline(1) _ _ m]) (use a in \<open>simp_all add: simple_def str_def\<close>)
    then have "stage_paragraphs (pre @ ?tag @ post) = pre @ [LF] @ post"
      using a by (simp add: stage_paragraphs_def Let_def quiet_lt simple_def LF_def)
    moreover have "simple (pre @ [LF] @ post)" using a by (simp add: char_defs)
    ultimately have "htmlToMrkdwn (pre @ ?tag @ post) = Inr (tidy (pre @ [LF] @ post))"
      using convert_via_paragraphs [of "pre @ ?tag @ post"] by (simp add: str_def)
    then show ?thesis by simp
  qed
  have B: "nl3free y \<and> trimmed y" if "htmlToMrkdwn x = Inr y"
    using that by (rule output_tidy)
  have C: "htmlToMrkdwn (pre @ replicate n LF @ post) = Inr (pre @ [LF, LF] @ post)"
    if a: "simple pre \<and> simple post \<and> LF \<notin> set pre \<and> LF \<notin> set post \<and> pre \<noteq> [] \<and> post \<noteq> []
      \<and> trimmed pre \<and> trimmed post \<and> 3 \<le> n"
  proof -
    have "simple (pre @ replicate n LF @ post)" using a by (auto simp: simple_def char_defs)
    then have "htmlToMrkdwn (pre @ replicate n LF @ post) = Inr (tidy (pre @ replicate n LF @ post))"
      by (simp add: convert_plain simple_plain)
    moreover have "tidy (pre @ replicate n LF @ post) = pre @ [LF, LF] @ post"
      using a trimmed_around [of pre post "[LF, LF]"] by (simp add: tidy_def collapse_run trim_trimmed)
    ultimately show ?thesis by simp
  qed
  have D: "htmlToMrkdwn (str ''a<br><br><br><br>b'') = Inr (str ''a'' @ [LF, LF] @ str ''b'')"
    by (simp add: eval_defs)
  show ?thesis using A B C D by blast
qed

theorem breaks_and_whitespace_witness:
  "htmlToMrkdwn (str ''a'' @ str ''<'' @ str ''bR'' @ str '' '' @ str ''/'' @ str ''>'' @ str ''b'')
     = Inr (str ''a'' @ [LF] @ str ''b'')
   \<and> htmlToMrkdwn (str ''<p>x</p>'') = Inr (str ''x'') \<and> nl3free (str ''x'') \<and> trimmed (str ''x'')
   \<and> htmlToMrkdwn (str ''a'' @ replicate 4 LF @ str ''b'') = Inr (str ''a'' @ [LF, LF] @ str ''b'')"
proof -
  note inst = breaks_and_whitespace [where pre = "str ''a''" and post = "str ''b''"
      and name = "str ''bR''" and ws = "str '' ''" and slash = "str ''/''"
      and x = "str ''<p>x</p>''" and y = "str ''x''" and n = "4::nat"]
  have h1: "simple (str ''a'') \<and> simple (str ''b'') \<and> map canonicalize (str ''bR'') = str ''BR''
      \<and> (\<forall>x\<in>set (str '' ''). is_space x) \<and> (str ''/'' = [] \<or> str ''/'' = str ''/'')"
    by (simp add: char_defs is_space_def)
  have h2: "htmlToMrkdwn (str ''<p>x</p>'') = Inr (str ''x'')"
    by (simp add: eval_defs)
  have h3: "simple (str ''a'') \<and> simple (str ''b'') \<and> LF \<notin> set (str ''a'') \<and> LF \<notin> set (str ''b'')
      \<and> str ''a'' \<noteq> [] \<and> str ''b'' \<noteq> [] \<and> trimmed (str ''a'') \<and> trimmed (str ''b'') \<and> 3 \<le> (4::nat)"
    by (simp add: char_defs is_space_def trimmed_def)
  have t: "tidy (str ''a'' @ [LF] @ str ''b'') = str ''a'' @ [LF] @ str ''b''"
    by (simp add: tidy_def collapse_newlines_def eval_defs)
  show ?thesis using inst h1 h2 h3 by (simp only: t) blast
qed

section \<open>Numeric entities\<close>

text \<open>
  Claim C8.  \<open>&#\<close>, one or more decimal digits and \<open>;\<close> decode to the one code unit
  that \<open>String.fromCharCode\<close> makes of the number \<open>parseInt\<close> reads, and likewise
  \<open>&#x\<close>, hexadecimal digits and \<open>;\<close>.  For a value \<open>n\<close> below \<open>2 ^ 53\<close> that code
  unit is \<open>n mod 65536\<close>: a code point above U+FFFF gives one code unit, not a
  surrogate pair.  The result of \<open>String.fromCharCode\<close> is one code unit whatever the
  number, and text that is not a well-formed numeric entity is left as it is; nothing
  throws.  So \<open>&#65;\<close> and \<open>&#x41;\<close> both become \<open>A\<close>.
\<close>

theorem numeric_entities:
  "(ds \<noteq> [] \<and> (\<forall>x\<in>set ds. is_digit x)
      \<longrightarrow> decodeHtmlEntities (str ''&#'' @ ds @ str '';'')
            = fromCharCode (to_number (digits_value 10 ds)))
   \<and> (hs \<noteq> [] \<and> (\<forall>x\<in>set hs. is_hex_digit x)
      \<longrightarrow> decodeHtmlEntities (str ''&#x'' @ hs @ str '';'')
            = fromCharCode (to_number (digits_value 16 hs)))
   \<and> (n < 2 ^ 53 \<longrightarrow> fromCharCode (to_number n) = [n mod 65536])
   \<and> length (fromCharCode x) = 1
   \<and> htmlToMrkdwn (str ''&#65;'') = Inr (str ''A'')
   \<and> htmlToMrkdwn (str ''&#x41;'') = Inr (str ''A'')
   \<and> htmlToMrkdwn (str ''&#x1F600;'') = Inr [62976]
   \<and> htmlToMrkdwn (str ''&#;'') = Inr (str ''&#;'')
   \<and> htmlToMrkdwn (str ''&#xZZ;'') = Inr (str ''&#xZZ;'')"
proof -
  have A: "decodeHtmlEntities (str ''&#'' @ ds @ str '';'')
            = fromCharCode (to_number (digits_value 10 ds))"
    if "ds \<noteq> [] \<and> (\<forall>x\<in>set ds. is_digit x)"
    using that by (intro decode_decimal) auto
  have B: "decodeHtmlEntities (str ''&#x'' @ hs @ str '';'')
            = fromCharCode (to_number (digits_value 16 hs))"
    if "hs \<noteq> [] \<and> (\<forall>x\<in>set hs. is_hex_digit x)"
    using that by (intro decode_hex) auto
  have C: "fromCharCode (to_number n) = [n mod 65536]" if "n < 2 ^ 53"
    using that by (rule to_number_small)
  have D: "length (fromCharCode x) = 1"
    using fromCharCode_single [of x] by auto
  have E: "htmlToMrkdwn (str ''&#65;'') = Inr (str ''A'')"
    "htmlToMrkdwn (str ''&#x41;'') = Inr (str ''A'')"
    "htmlToMrkdwn (str ''&#x1F600;'') = Inr [62976]"
    "htmlToMrkdwn (str ''&#;'') = Inr (str ''&#;'')"
    "htmlToMrkdwn (str ''&#xZZ;'') = Inr (str ''&#xZZ;'')"
    by (simp_all add: eval_defs)
  show ?thesis using A B C D E by blast
qed

theorem numeric_entities_witness:
  "decodeHtmlEntities (str ''&#'' @ str ''8226'' @ str '';'') = [BULLET]
   \<and> decodeHtmlEntities (str ''&#x'' @ str ''1f600'' @ str '';'') = [62976]
   \<and> fromCharCode (to_number 128512) = [62976]"
proof -
  note inst = numeric_entities [where ds = "str ''8226''" and hs = "str ''1f600''" and n = 128512]
  have h: "str ''8226'' \<noteq> [] \<and> (\<forall>x\<in>set (str ''8226''). is_digit x)"
    "str ''1f600'' \<noteq> [] \<and> (\<forall>x\<in>set (str ''1f600''). is_hex_digit x)"
    "(128512::nat) < 2 ^ 53"
    by (simp_all add: str_def is_digit_def is_hex_digit_def)
  have v: "fromCharCode (to_number (digits_value 10 (str ''8226''))) = [BULLET]"
    "fromCharCode (to_number (digits_value 16 (str ''1f600''))) = [62976]"
    "[128512 mod 65536] = [62976::nat]"
    by (simp_all add: eval_defs)
  have "decodeHtmlEntities (str ''&#'' @ str ''8226'' @ str '';'')
      = fromCharCode (to_number (digits_value 10 (str ''8226'')))
    \<and> decodeHtmlEntities (str ''&#x'' @ str ''1f600'' @ str '';'')
      = fromCharCode (to_number (digits_value 16 (str ''1f600'')))
    \<and> fromCharCode (to_number 128512) = [128512 mod 65536]"
    using inst h by blast
  then show ?thesis by (simp only: v)
qed

section \<open>Placeholders in the input\<close>




section \<open>Entities decoded twice\<close>

text \<open>
  Claim C10.  The named entities are replaced one after the other in the order of the
  table, which starts with \<open>&amp;\<close>, and the two numeric passes run on the result.
  So \<open>&amp;\<close> written before any text gives what \<open>&\<close> written there gives (unless
  the text itself starts with \<open>amp;\<close>): followed by the rest of a later entity of the
  table it gives that entity's replacement, and followed by \<open>#\<close>, digits and \<open>;\<close>, or
  by \<open>#x\<close>, hexadecimal digits and \<open>;\<close>, it gives the code unit of that number.
  \<open>&amp;lt;\<close> becomes \<open><\<close>, and \<open>&amp;#65;\<close> and \<open>&amp;#x41;\<close> become \<open>A\<close>.  The
  passes run once each, in their order: \<open>&#38;lt;\<close> becomes \<open>&lt;\<close> and stays so.
\<close>

theorem entities_decoded_again:
  "fst (hd entities) = str ''&amp;''
   \<and> (60 \<notin> set pre \<and> NUL \<notin> set pre \<and> 38 \<notin> set pre \<and> 60 \<notin> set t \<and> NUL \<notin> set t
        \<and> \<not> starts_with (str ''amp;'') t
      \<longrightarrow> htmlToMrkdwn (pre @ str ''&amp;'' @ t) = htmlToMrkdwn (pre @ str ''&'' @ t))
   \<and> ((e, r) \<in> set (tl entities) \<longrightarrow> decodeHtmlEntities (str ''&amp;'' @ tl e) = r)
   \<and> (ds \<noteq> [] \<and> (\<forall>x\<in>set ds. is_digit x)
      \<longrightarrow> decodeHtmlEntities (str ''&amp;#'' @ ds @ str '';'')
            = fromCharCode (to_number (digits_value 10 ds)))
   \<and> (hs \<noteq> [] \<and> (\<forall>x\<in>set hs. is_hex_digit x)
      \<longrightarrow> decodeHtmlEntities (str ''&amp;#x'' @ hs @ str '';'')
            = fromCharCode (to_number (digits_value 16 hs)))
   \<and> htmlToMrkdwn (str ''&amp;lt;'') = Inr (str ''<'')
   \<and> htmlToMrkdwn (str ''&amp;lt;'') \<noteq> Inr (str ''&lt;'')
   \<and> htmlToMrkdwn (str ''&amp;#65;'') = Inr (str ''A'')
   \<and> htmlToMrkdwn (str ''&amp;#65;'') \<noteq> Inr (str ''&#65;'')
   \<and> htmlToMrkdwn (str ''&amp;#x41;'') = Inr (str ''A'')
   \<and> htmlToMrkdwn (str ''&#38;lt;'') = Inr (str ''&lt;'')"
proof -
  have A: "fst (hd entities) = str ''&amp;''" by (simp add: entities_def)
  have B: "htmlToMrkdwn (pre @ str ''&amp;'' @ t) = htmlToMrkdwn (pre @ str ''&'' @ t)"
    if a: "60 \<notin> set pre \<and> NUL \<notin> set pre \<and> 38 \<notin> set pre \<and> 60 \<notin> set t \<and> NUL \<notin> set t
        \<and> \<not> starts_with (str ''amp;'') t"
  proof -
    have "htmlToMrkdwn (pre @ str ''&amp;'' @ t) = Inr (tidy (decodeHtmlEntities (pre @ str ''&amp;'' @ t)))"
      by (rule convert_decodes) (use a in \<open>simp_all add: char_defs\<close>)
    moreover have "htmlToMrkdwn (pre @ str ''&'' @ t) = Inr (tidy (decodeHtmlEntities (pre @ str ''&'' @ t)))"
      by (rule convert_decodes) (use a in \<open>simp_all add: char_defs\<close>)
    moreover have "decodeHtmlEntities (pre @ str ''&amp;'' @ t) = decodeHtmlEntities (pre @ str ''&'' @ t)"
      by (rule decode_amp_written_out) (use a in simp_all)
    ultimately show ?thesis by simp
  qed
  have C: "decodeHtmlEntities (str ''&amp;'' @ tl e) = r" if "(e, r) \<in> set (tl entities)"
    using later_entities that by (auto simp: list_all_iff)
  have D: "decodeHtmlEntities (str ''&amp;#'' @ ds @ str '';'')
            = fromCharCode (to_number (digits_value 10 ds))"
    if a: "ds \<noteq> [] \<and> (\<forall>x\<in>set ds. is_digit x)"
  proof -
    have "decodeHtmlEntities ([] @ str ''&amp;'' @ (35 # ds @ str '';''))
        = decodeHtmlEntities ([] @ str ''&'' @ (35 # ds @ str '';''))"
      by (rule decode_amp_written_out) (simp_all add: str_def)
    moreover have "decodeHtmlEntities (str ''&#'' @ ds @ str '';'')
        = fromCharCode (to_number (digits_value 10 ds))"
      using a by (intro decode_decimal) auto
    ultimately show ?thesis by (simp add: str_def)
  qed
  have E: "decodeHtmlEntities (str ''&amp;#x'' @ hs @ str '';'')
            = fromCharCode (to_number (digits_value 16 hs))"
    if a: "hs \<noteq> [] \<and> (\<forall>x\<in>set hs. is_hex_digit x)"
  proof -
    have "decodeHtmlEntities ([] @ str ''&amp;'' @ (35 # 120 # hs @ str '';''))
        = decodeHtmlEntities ([] @ str ''&'' @ (35 # 120 # hs @ str '';''))"
      by (rule decode_amp_written_out) (simp_all add: str_def)
    moreover have "decodeHtmlEntities (str ''&#x'' @ hs @ str '';'')
        = fromCharCode (to_number (digits_value 16 hs))"
      using a by (intro decode_hex) auto
    ultimately show ?thesis by (simp add: str_def)
  qed
  have F: "htmlToMrkdwn (str ''&amp;lt;'') = Inr (str ''<'')"
    "htmlToMrkdwn (str ''&amp;#65;'') = Inr (str ''A'')"
    "htmlToMrkdwn (str ''&amp;#x41;'') = Inr (str ''A'')"
    "htmlToMrkdwn (str ''&#38;lt;'') = Inr (str ''&lt;'')"
    by (simp_all add: eval_defs)
  have G: "htmlToMrkdwn (str ''&amp;lt;'') \<noteq> Inr (str ''&lt;'')"
    "htmlToMrkdwn (str ''&amp;#65;'') \<noteq> Inr (str ''&#65;'')"
    using F(1,2) by (simp_all add: str_def)
  show ?thesis by (intro conjI impI) (rule A B C D E F G, assumption?)+
qed

theorem entities_decoded_again_witness:
  "htmlToMrkdwn (str ''a '' @ str ''&amp;'' @ str ''gt; b'') = Inr (str ''a > b'')
   \<and> decodeHtmlEntities (str ''&amp;'' @ tl (str ''&hellip;'')) = [8230]
   \<and> decodeHtmlEntities (str ''&amp;#'' @ str ''8226'' @ str '';'') = [BULLET]
   \<and> decodeHtmlEntities (str ''&amp;#x'' @ str ''1f600'' @ str '';'') = [62976]"
proof -
  note inst = entities_decoded_again [where pre = "str ''a ''" and t = "str ''gt; b''"
      and e = "str ''&hellip;''" and r = "[8230]" and ds = "str ''8226''" and hs = "str ''1f600''"]
  have h: "60 \<notin> set (str ''a '') \<and> NUL \<notin> set (str ''a '') \<and> 38 \<notin> set (str ''a '')
      \<and> 60 \<notin> set (str ''gt; b'') \<and> NUL \<notin> set (str ''gt; b'')
      \<and> \<not> starts_with (str ''amp;'') (str ''gt; b'')"
    "(str ''&hellip;'', [8230]) \<in> set (tl entities)"
    "str ''8226'' \<noteq> [] \<and> (\<forall>x\<in>set (str ''8226''). is_digit x)"
    "str ''1f600'' \<noteq> [] \<and> (\<forall>x\<in>set (str ''1f600''). is_hex_digit x)"
    by (simp_all add: char_defs entities_def is_digit_def is_hex_digit_def)
  have v: "htmlToMrkdwn (str ''a '' @ str ''&'' @ str ''gt; b'') = Inr (str ''a > b'')"
    "fromCharCode (to_number (digits_value 10 (str ''8226''))) = [BULLET]"
    "fromCharCode (to_number (digits_value 16 (str ''1f600''))) = [62976]"
    by (simp_all add: eval_defs)
  have "htmlToMrkdwn (str ''a '' @ str ''&amp;'' @ str ''gt; b'')
      = htmlToMrkdwn (str ''a '' @ str ''&'' @ str ''gt; b'')
    \<and> decodeHtmlEntities (str ''&amp;'' @ tl (str ''&hellip;'')) = [8230]
    \<and> decodeHtmlEntities (str ''&amp;#'' @ str ''8226'' @ str '';'')
      = fromCharCode (to_number (digits_value 10 (str ''8226'')))
    \<and> decodeHtmlEntities (str ''&amp;#x'' @ str ''1f600'' @ str '';'')
      = fromCharCode (to_number (digits_value 16 (str ''1f600'')))"
    by (intro conjI inst [THEN conjunct2, THEN conjunct1, rule_format]
        inst [THEN conjunct2, THEN conjunct2, THEN conjunct1, rule_format]
        inst [THEN conjunct2, THEN conjunct2, THEN conjunct2, THEN conjunct1, rule_format]
        inst [THEN conjunct2, THEN conjunct2, THEN conjunct2, THEN conjunct2, THEN conjunct1, rule_format]
        h)
  then show ?thesis by (simp only: v)
qed

end
